theory Spec2Isabelle
  imports Main "HOL-Library.Word"
begin

unbundle bit_operations_syntax

section \<open>Rabin signatures with Bleichenbacher compression (rw.c)\<close>

text \<open>
  The program \<^verbatim>\<open>rw.c\<close> generates two primes, builds CRT coefficients, samples and
  tweaks a message element, extracts a square root modulo \<open>n = p q\<close>, compresses that
  root with a continued fraction, and checks the compressed signature a million times.
  Arbitrary-precision integers (\<^verbatim>\<open>mpz_t\<close>) are \<^typ>\<open>int\<close>; the C \<^verbatim>\<open>unsigned\<close> loop index
  of the compressor is a \<^typ>\<open>32 word\<close>; a byte is an \<^typ>\<open>8 word\<close>.  Every way the process
  can die is a value of \<open>fatal\<close>.
\<close>

subsection \<open>Failures\<close>

datatype fatal = Abort | DivideByZero | SqrtOfNegative

subsection \<open>The GMP primitives the program calls\<close>

text \<open>
  GMP is an external library; each primitive is modelled by its documented result.
  \<^verbatim>\<open>mpz_import(n, bytes, 1, 1, 0, 0, buffer)\<close> reads the buffer as a big-endian number.
\<close>

definition mpz_import :: "8 word list \<Rightarrow> int" where
  "mpz_import buffer = foldl (\<lambda>acc b. acc * 256 + uint b) 0 buffer"

definition mpz_setbit :: "int \<Rightarrow> nat \<Rightarrow> int" where
  "mpz_setbit n k = set_bit k n"

definition mpz_clrbit :: "int \<Rightarrow> nat \<Rightarrow> int" where
  "mpz_clrbit n k = unset_bit k n"

text \<open>
  \<^verbatim>\<open>mpz_mod\<close> ignores the sign of the divisor; the result is never negative.  The
  program calls it, and \<^verbatim>\<open>mpz_powm\<close>, with the moduli \<open>p\<close>, \<open>q\<close> and \<open>n = p q\<close> only, which are
  odd and so never zero.
\<close>

definition mpz_mod :: "int \<Rightarrow> int \<Rightarrow> int" where
  "mpz_mod a d = a mod \<bar>d\<bar>"

text \<open>\<^verbatim>\<open>mpz_powm\<close>, for the non-negative exponents the program passes.\<close>

definition mpz_powm :: "int \<Rightarrow> int \<Rightarrow> int \<Rightarrow> int" where
  "mpz_powm b e m = b ^ nat e mod \<bar>m\<bar>"

text \<open>\<^verbatim>\<open>mpz_cdiv_q_2exp\<close>: division by a power of two, rounded up.\<close>

definition mpz_cdiv_q_2exp :: "int \<Rightarrow> nat \<Rightarrow> int" where
  "mpz_cdiv_q_2exp a k = - ((- a) div 2 ^ k)"

text \<open>
  \<^verbatim>\<open>mpz_fdiv_qr\<close>: floor division with remainder; GMP raises a division-by-zero
  signal for a zero divisor.
\<close>

definition mpz_fdiv_qr :: "int \<Rightarrow> int \<Rightarrow> fatal + (int \<times> int)" where
  "mpz_fdiv_qr a d = (if d = 0 then Inl DivideByZero else Inr (a div d, a mod d))"

text \<open>The integer square root, by the recurrence \<open>isqrt (n + 1) \<in> {isqrt n, isqrt n + 1}\<close>.\<close>

primrec isqrt :: "nat \<Rightarrow> nat" where
  "isqrt 0 = 0"
| "isqrt (Suc n) = (let r = isqrt n in if (r + 1) * (r + 1) \<le> Suc n then r + 1 else r)"

definition mpz_sqrt :: "int \<Rightarrow> fatal + int" where
  "mpz_sqrt n = (if n < 0 then Inl SqrtOfNegative else Inr (int (isqrt (nat n))))"

definition mpz_sqrtrem :: "int \<Rightarrow> fatal + (int \<times> int)" where
  "mpz_sqrtrem n =
     (if n < 0 then Inl SqrtOfNegative
      else let t = int (isqrt (nat n)) in Inr (t, n - t * t))"

subsection \<open>The randomness source\<close>

text \<open>
  \<^verbatim>\<open>/dev/urandom\<close> is the list of what each future call of \<^verbatim>\<open>read\<close> will deliver: some
  bytes (at most the number asked for are taken), or \<open>-1\<close> with an \<^verbatim>\<open>errno\<close>.  An
  exhausted list is end of file: \<^verbatim>\<open>read\<close> returns 0.
\<close>

datatype errno = EINTR | EIO

datatype read_result = Bytes "8 word list" | Failed errno

type_synonym urandom = "read_result list"

fun sys_read :: "nat \<Rightarrow> urandom \<Rightarrow> read_result \<times> urandom" where
  "sys_read count [] = (Bytes [], [])"
| "sys_read count (Bytes bs # rest) = (Bytes (take count bs), rest)"
| "sys_read count (Failed e # rest) = (Failed e, rest)"

text \<open>
  The loop \<^verbatim>\<open>do { r = read(urfd, buffer, bytes); } while (r == -1 && errno == EINTR);\<close>
  of \<^verbatim>\<open>init_random_prime\<close> and \<^verbatim>\<open>random_element\<close>.
\<close>

fun read_retry :: "nat \<Rightarrow> urandom \<Rightarrow> read_result \<times> urandom" where
  "read_retry count [] = (Bytes [], [])"
| "read_retry count (Bytes bs # rest) = (Bytes (take count bs), rest)"
| "read_retry count (Failed e # rest) =
     (if e = EINTR then read_retry count rest else (Failed e, rest))"

text \<open>Followed by \<^verbatim>\<open>if (r != bytes) abort();\<close>.\<close>

definition read_exact :: "nat \<Rightarrow> urandom \<Rightarrow> fatal + (8 word list \<times> urandom)" where
  "read_exact bytes src =
     (case read_retry bytes src of
        (Bytes buffer, rest) \<Rightarrow> if length buffer \<noteq> bytes then Inl Abort else Inr (buffer, rest)
      | (Failed e, rest) \<Rightarrow> Inl Abort)"

subsection \<open>Prime generation\<close>

text \<open>
  The candidate built from one buffer: bit 0 forced, bits 1 and 2 copied from \<open>mod8\<close>.
\<close>

definition prime_candidate :: "nat \<Rightarrow> 8 word list \<Rightarrow> int" where
  "prime_candidate mod8 buffer =
     (let n = mpz_import buffer;
          n = mpz_setbit n 0;
          n = (if mod8 AND 2 \<noteq> 0 then mpz_setbit n 1 else mpz_clrbit n 1);
          n = (if mod8 AND 4 \<noteq> 0 then mpz_setbit n 2 else mpz_clrbit n 2)
      in n)"

text \<open>
  The \<^verbatim>\<open>for (;;)\<close> loop of \<^verbatim>\<open>init_random_prime\<close>.  It has no bound, so it is a partial
  function: \<open>None\<close> is a run that never returns.  GMP's primality test is a parameter,
  \<open>mpz_probab_prime_p n reps\<close>, with GMP's result: 0 for a composite, 1 for a probable
  prime, 2 for a certain prime.  Line 73 calls it with \<open>reps = 10\<close> and leaves the loop on
  any non-zero result.
\<close>

partial_function (option) init_random_prime_loop ::
  "(int \<Rightarrow> int \<Rightarrow> int) \<Rightarrow> nat \<Rightarrow> nat \<Rightarrow> urandom \<Rightarrow> (fatal + (int \<times> urandom)) option" where
  "init_random_prime_loop mpz_probab_prime_p bytes mod8 src =
     (case read_exact bytes src of
        Inl err \<Rightarrow> Some (Inl err)
      | Inr (buffer, rest) \<Rightarrow>
          if mpz_probab_prime_p (prime_candidate mod8 buffer) 10 \<noteq> 0
          then Some (Inr (prime_candidate mod8 buffer, rest))
          else init_random_prime_loop mpz_probab_prime_p bytes mod8 rest)"

declare init_random_prime_loop.simps [code]

definition init_random_prime ::
  "(int \<Rightarrow> int \<Rightarrow> int) \<Rightarrow> nat \<Rightarrow> nat \<Rightarrow> urandom \<Rightarrow> (fatal + (int \<times> urandom)) option" where
  "init_random_prime mpz_probab_prime_p sz mod8 src =
     (let bytes = drop_bit 3 sz
      in if bytes > 2048 then Some (Inl Abort)
         else init_random_prime_loop mpz_probab_prime_p bytes mod8 src)"

text \<open>
  Modelled from the spec: the primality test is GMP's, not a function of \<^verbatim>\<open>rw.c\<close>, and the
  specification gives its guarantee as "error probability \<open>\<le> 4^-10\<close>, i.e. 10
  Miller-Rabin-equivalent rounds": a run with \<open>reps\<close> rounds accepts a composite with
  probability at most \<open>4 ^ - reps\<close>, that is, at most one in \<open>inverse_error_bound reps\<close>.
\<close>

definition inverse_error_bound :: "int \<Rightarrow> nat" where
  "inverse_error_bound reps = 4 ^ nat reps"

subsection \<open>Element sampling\<close>

definition random_element :: "nat \<Rightarrow> int \<Rightarrow> urandom \<Rightarrow> fatal + (int \<times> urandom)" where
  "random_element sz n src =
     (let bytes = drop_bit 3 sz
      in if bytes > 2048 then Inl Abort
         else case read_exact bytes src of
                Inl err \<Rightarrow> Inl err
              | Inr (buffer, rest) \<Rightarrow> Inr (mpz_mod (mpz_import buffer) n, rest))"

subsection \<open>The quadratic residue oracle\<close>

definition is_quadratic_residue :: "int \<Rightarrow> int \<Rightarrow> int \<Rightarrow> bool" where
  "is_quadratic_residue e p pw =
     (let emod = mpz_mod e p;
          r = mpz_powm e pw p;
          r = r * r;
          r = mpz_mod r p
      in r = emod)"

subsection \<open>Signature compression\<close>

text \<open>
  One pass through the body of the \<^verbatim>\<open>do ... while\<close> loop of \<^verbatim>\<open>signature_compress\<close>.
  The arguments \<open>s\<close> and \<open>n\<close> are \<^verbatim>\<open>mpz_t\<close>, that is, passed by reference, and
  \<^verbatim>\<open>mpz_fdiv_qr(cf, s, s, n)\<close> stores the remainder back into \<open>s\<close>; the state carries both.
\<close>

definition compress_step ::
  "32 word \<Rightarrow> int \<Rightarrow> int \<Rightarrow> int list \<Rightarrow> fatal + (32 word \<times> int \<times> int \<times> int list)" where
  "compress_step i0 s n vs =
     (let i = (i0 + 1) AND 3
      in case (if i AND 1 \<noteq> 0 then mpz_fdiv_qr s n else mpz_fdiv_qr n s) of
           Inl err \<Rightarrow> Inl err
         | Inr (cf, r) \<Rightarrow>
             let s' = (if i AND 1 \<noteq> 0 then r else s);
                 n' = (if i AND 1 \<noteq> 0 then n else r);
                 vs1 = vs[unat i := vs ! unat ((i - 1) AND 3) * cf];
                 vs2 = vs1[unat i := vs1 ! unat i + vs1 ! unat ((i - 2) AND 3)]
             in Inr (i, s', n', vs2))"

function compress_loop ::
  "int \<Rightarrow> 32 word \<Rightarrow> int \<Rightarrow> int \<Rightarrow> int list \<Rightarrow> fatal + (32 word \<times> int \<times> int \<times> int list)" where
  "compress_loop root i0 s n vs =
     (case compress_step i0 s n vs of
        Inl err \<Rightarrow> Inl err
      | Inr (i, s', n', vs') \<Rightarrow>
          if vs' ! unat i < root then compress_loop root i s' n' vs'
          else Inr (i, s', n', vs'))"
  by pat_completeness auto
termination
proof (relation "measure (\<lambda>(root, i, s, n, vs).
         nat (if even i then 2 * \<bar>n\<bar> + (if \<bar>s\<bar> < \<bar>n\<bar> then 0 else 1)
              else 2 * \<bar>s\<bar> + (if \<bar>n\<bar> < \<bar>s\<bar> then 0 else 1)))", goal_cases)
  case 1
  show ?case by simp
next
  case (2 root i0 s n vs x2 i y s' ya n' vs')
  then have step: "compress_step i0 s n vs = Inr (i, s', n', vs')" by simp
  have par: "even ((i0 + 1) AND 3) \<longleftrightarrow> odd i0" "((i0 + 1) AND 3) AND 1 \<noteq> 0 \<longleftrightarrow> even i0"
    by (simp_all add: even_and_iff and_one_eq flip: odd_iff_mod_2_eq_one)
  show ?case
  proof (cases "even i0")
    case True
    with step par have "n \<noteq> 0" "s' = s mod n" "n' = n" "odd i"
      by (auto simp: compress_step_def mpz_fdiv_qr_def Let_def split: if_splits)
    moreover have "\<bar>s mod n\<bar> < \<bar>n\<bar>" using \<open>n \<noteq> 0\<close> by (rule abs_mod_less)
    ultimately show ?thesis using True by simp
  next
    case False
    with step par have "s \<noteq> 0" "n' = n mod s" "s' = s" "even i"
      by (auto simp: compress_step_def mpz_fdiv_qr_def Let_def split: if_splits)
    moreover have "\<bar>n mod s\<bar> < \<bar>s\<bar>" using \<open>s \<noteq> 0\<close> by (rule abs_mod_less)
    ultimately show ?thesis using False by simp
  qed
qed

text \<open>
  \<^verbatim>\<open>signature_compress(zsig, s, n)\<close>.  The result is \<open>zsig\<close> together with what the
  caller's \<open>s\<close> and \<open>n\<close> hold on return.
\<close>

definition signature_compress :: "int \<Rightarrow> int \<Rightarrow> fatal + (int \<times> int \<times> int)" where
  "signature_compress s n =
     (case mpz_sqrt n of
        Inl err \<Rightarrow> Inl err
      | Inr root \<Rightarrow>
          (case compress_loop root 1 s n [0, 1, 0, 0] of
             Inl err \<Rightarrow> Inl err
           | Inr (i, s', n', vs) \<Rightarrow> Inr (vs ! unat ((i - 1) AND 3), s', n')))"

subsection \<open>The stages of \<^verbatim>\<open>main\<close>\<close>

text \<open>
  Modelled from the spec: \<^verbatim>\<open>xgcd(u, v, p, q)\<close> is called by \<^verbatim>\<open>main\<close> but defined nowhere in
  \<^verbatim>\<open>rw.c\<close>.  The specification says that it runs the extended Euclidean algorithm on
  \<open>(p, q)\<close> and yields Bezout coefficients \<open>(u0, v0)\<close> with \<open>u0 p + v0 q = 1\<close>; the
  model is the extended Euclidean algorithm \<^const>\<open>bezw\<close> of the library.
\<close>

definition xgcd :: "int \<Rightarrow> int \<Rightarrow> int \<times> int" where
  "xgcd p q = bezw (nat p) (nat q)"

text \<open>Lines 195 to 204: the modulus and the CRT coefficients.\<close>

definition group_builder :: "int \<Rightarrow> int \<Rightarrow> int \<times> int \<times> int" where
  "group_builder p q =
     (let n = p * q;
          (u, v) = xgcd p q;
          u = u * p;
          v = v * q
      in (n, u, v))"

text \<open>
  Lines 221 to 242.  The C \<^verbatim>\<open>int\<close> flags \<open>a\<close>, \<open>b\<close>, \<open>mul_2\<close> and \<open>negate\<close> only hold 0 or 1
  and are booleans here; \<^verbatim>\<open>a ^ b\<close> is \<open>a \<noteq> b\<close> and \<^verbatim>\<open>a ^= 1\<close> is negation.
\<close>

definition residue_tweak :: "int \<Rightarrow> bool \<Rightarrow> bool \<Rightarrow> int \<Rightarrow> int" where
  "residue_tweak e a b n =
     (let mul_2 = (a \<noteq> b);
          a = (if mul_2 then \<not> a else a);
          negate = \<not> a;
          e = (if negate then - e else e);
          e = (if mul_2 then e * 2 else e)
      in if negate \<or> mul_2 then mpz_mod e n else e)"

text \<open>
  Lines 246 to 248: \<^verbatim>\<open>uint8_t root; read(urfd, &root, 1);\<close>.  The result of \<^verbatim>\<open>read\<close> is
  discarded, so when no byte arrives \<open>root\<close> keeps whatever the uninitialised stack slot
  held, the parameter \<open>garbage\<close>.
\<close>

definition read_root :: "8 word \<Rightarrow> urandom \<Rightarrow> 8 word \<times> urandom" where
  "read_root garbage src =
     (case sys_read 1 src of
        (Bytes (b # bs), rest) \<Rightarrow> (b, rest)
      | (Bytes [], rest) \<Rightarrow> (garbage, rest)
      | (Failed e, rest) \<Rightarrow> (garbage, rest))"

text \<open>Lines 252 to 278: the two roots, their signs, and the CRT recombination.\<close>

definition root_extractor :: "int \<Rightarrow> int \<Rightarrow> int \<Rightarrow> int \<Rightarrow> int \<Rightarrow> int \<Rightarrow> 8 word \<Rightarrow> int" where
  "root_extractor e p q n u v root =
     (let pp1over4 = mpz_cdiv_q_2exp (p + 1) 2;
          qp1over4 = mpz_cdiv_q_2exp (q + 1) 2;
          proot = mpz_powm e pp1over4 p;
          qroot = mpz_powm e qp1over4 q;
          proot = (if root AND 1 \<noteq> 0 then - proot else proot);
          qroot = (if root AND 2 \<noteq> 0 then - qroot else qroot);
          proot = proot * v;
          qroot = qroot * u;
          proot = proot + qroot
      in mpz_mod proot n)"

text \<open>Lines 301 to 311: the body of the verification loop, and the loop itself.\<close>

definition verify_once :: "int \<Rightarrow> int \<Rightarrow> int \<Rightarrow> fatal + unit" where
  "verify_once zsig e n =
     (let zsigcopy = zsig;
          zsigcopy = zsigcopy * zsigcopy;
          zsigcopy = zsigcopy * e;
          zsigcopy = mpz_mod zsigcopy n
      in if zsigcopy = 0 then Inl Abort
         else case mpz_sqrtrem zsigcopy of
                Inl err \<Rightarrow> Inl err
              | Inr (t, t2) \<Rightarrow> if t2 \<noteq> 0 then Inl Abort else Inr ())"

fun verify_loop :: "nat \<Rightarrow> int \<Rightarrow> int \<Rightarrow> int \<Rightarrow> fatal + unit" where
  "verify_loop 0 zsig e n = Inr ()"
| "verify_loop (Suc k) zsig e n =
     (case verify_once zsig e n of
        Inl err \<Rightarrow> Inl err
      | Inr ok \<Rightarrow> verify_loop k zsig e n)"

text \<open>
  \<^verbatim>\<open>main\<close> from line 195 on, given the two primes.  The calls
  \<^verbatim>\<open>is_quadratic_residue(e, p)\<close> of lines 216 and 217 leave out the third argument; the
  model passes the exponent \<open>(p + 1) / 4\<close> that the function's header comment asks for,
  computed as lines 254 to 260 compute it.  The compressor receives a copy of \<open>n\<close> but the
  signature \<open>proot\<close> itself.
\<close>

definition sign_and_verify :: "int \<Rightarrow> int \<Rightarrow> 8 word \<Rightarrow> urandom \<Rightarrow> fatal + int" where
  "sign_and_verify p q garbage src =
     (let (n, u, v) = group_builder p q
      in case random_element 1024 n src of
           Inl err \<Rightarrow> Inl err
         | Inr (e, src) \<Rightarrow>
             let a = is_quadratic_residue e p (mpz_cdiv_q_2exp (p + 1) 2);
                 b = is_quadratic_residue e q (mpz_cdiv_q_2exp (q + 1) 2);
                 e = residue_tweak e a b n;
                 (root, src) = read_root garbage src;
                 root = root AND 3;
                 proot = root_extractor e p q n u v root;
                 ncopy = n
             in case signature_compress proot ncopy of
                  Inl err \<Rightarrow> Inl err
                | Inr (zsig, proot, ncopy) \<Rightarrow>
                    (case verify_loop 1000000 zsig e n of
                       Inl err \<Rightarrow> Inl err
                     | Inr ok \<Rightarrow> Inr 0))"

definition main :: "(int \<Rightarrow> int \<Rightarrow> int) \<Rightarrow> 8 word \<Rightarrow> urandom \<Rightarrow> (fatal + int) option" where
  "main mpz_probab_prime_p garbage src =
     (case init_random_prime mpz_probab_prime_p 512 3 src of
        None \<Rightarrow> None
      | Some (Inl err) \<Rightarrow> Some (Inl err)
      | Some (Inr (p, src)) \<Rightarrow>
          (case init_random_prime mpz_probab_prime_p 512 7 src of
             None \<Rightarrow> None
           | Some (Inl err) \<Rightarrow> Some (Inl err)
           | Some (Inr (q, src)) \<Rightarrow> Some (sign_and_verify p q garbage src)))"

subsection \<open>Notions of the specification\<close>

text \<open>Primality by trial division, and quadratic residues by search over the residues.\<close>

definition is_prime :: "int \<Rightarrow> bool" where
  "is_prime p \<longleftrightarrow> 1 < p \<and> list_all (\<lambda>d. \<not> d dvd p) [2..p - 1]"

definition quadratic_residue :: "int \<Rightarrow> int \<Rightarrow> bool" where
  "quadratic_residue e p \<longleftrightarrow> list_ex (\<lambda>x. x * x mod p = e mod p) [0..p - 1]"

text \<open>
  One primality test that the parameter of \<open>init_random_prime\<close> can be, for running the
  program on given bytes: trial division, which answers 2 for a prime and 0 for anything
  else whatever the number of rounds, as GMP does for small numbers.
\<close>

definition trial_division :: "int \<Rightarrow> int \<Rightarrow> int" where
  "trial_division n reps = (if is_prime n then 2 else 0)"

text \<open>
  Two auxiliary functions for the value of \<open>2 ^ ((p - 1) / 2)\<close> modulo \<open>p\<close>: doubling
  folded back into the lower half of the residues, and the sign that the fold costs.
\<close>

definition gauss_fold :: "int \<Rightarrow> int \<Rightarrow> int" where
  "gauss_fold p k = (if 2 * k \<le> (p - 1) div 2 then 2 * k else p - 2 * k)"

definition gauss_sign :: "int \<Rightarrow> int \<Rightarrow> int" where
  "gauss_sign p k = (if 2 * k \<le> (p - 1) div 2 then 1 else - 1)"

section \<open>The compressor\<close>

subsection \<open>The ring of four convergents\<close>

lemma ring_index_cases:
  fixes i :: "32 word"
  assumes "i \<le> 3"
  shows "i = 0 \<or> i = 1 \<or> i = 2 \<or> i = 3"
proof -
  have "unat i \<le> 3" using assms by (simp add: word_le_nat_alt)
  moreover have "k = 0 \<or> k = 1 \<or> k = 2 \<or> k = 3" if "k \<le> 3" for k :: nat
    using that by (cases k rule: nat.exhaust; simp add: eval_nat_numeral le_Suc_eq)
  ultimately have "unat i = 0 \<or> unat i = 1 \<or> unat i = 2 \<or> unat i = 3" by blast
  then show ?thesis by (simp add: word_unat_eq_iff)
qed

lemma ring_next:
  fixes i0 :: "32 word"
  assumes "i0 \<le> 3"
  shows "(i0 + 1) AND 3 \<le> 3" "((i0 + 1) AND 3) - 1 AND 3 = i0"
    "((i0 + 1) AND 3) - 2 AND 3 = i0 - 1 AND 3"
    "unat ((i0 + 1) AND 3) \<noteq> unat i0" "unat ((i0 + 1) AND 3) \<noteq> unat (i0 - 1 AND 3)"
    "unat ((i0 + 1) AND 3) < 4" "unat i0 < 4" "unat (i0 - 1 AND 3) < 4"
  using ring_index_cases[OF assms] by auto


lemma ring_parity:
  fixes i0 :: "32 word"
  shows "even ((i0 + 1) AND 3) \<longleftrightarrow> odd i0" "((i0 + 1) AND 3) AND 1 \<noteq> 0 \<longleftrightarrow> even i0"
  by (simp_all add: even_and_iff and_one_eq flip: odd_iff_mod_2_eq_one)

text \<open>What one pass of the loop body does, with the ring read as "latest" and "previous".\<close>

lemma compress_step_even:
  assumes "compress_step i0 s n vs = Inr (i, s', n', vs')" "even i0"
  shows "i = (i0 + 1) AND 3" "n \<noteq> 0" "s' = s mod n" "n' = n"
  using assms ring_parity[of i0]
  by (auto simp: compress_step_def mpz_fdiv_qr_def Let_def split: if_splits)

lemma compress_step_odd:
  assumes "compress_step i0 s n vs = Inr (i, s', n', vs')" "odd i0"
  shows "i = (i0 + 1) AND 3" "s \<noteq> 0" "n' = n mod s" "s' = s"
  using assms ring_parity[of i0]
  by (auto simp: compress_step_def mpz_fdiv_qr_def Let_def split: if_splits)

lemma compress_step_ring:
  assumes "compress_step i0 s n vs = Inr (i, s', n', vs')" "i0 \<le> 3" "length vs = 4"
  shows "i \<le> 3" "length vs' = 4" "(i - 1) AND 3 = i0" "vs' ! unat i0 = vs ! unat i0"
    "vs' ! unat i = vs ! unat i0 * (if even i0 then s div n else n div s) + vs ! unat ((i0 - 1) AND 3)"
proof -
  have i: "i = (i0 + 1) AND 3"
    using assms(1) by (auto simp: compress_step_def mpz_fdiv_qr_def Let_def split: if_splits)
  note r = ring_next[OF assms(2)]
  show "i \<le> 3" "(i - 1) AND 3 = i0" unfolding i using r by simp_all
  have vs': "vs' = vs[unat i := vs ! unat i0 * (if even i0 then s div n else n div s)
                                 + vs ! unat ((i0 - 1) AND 3)]"
    using assms(1,3) ring_parity[of i0] r unfolding i
    by (auto simp: compress_step_def mpz_fdiv_qr_def Let_def split: if_splits)
  show "length vs' = 4" unfolding vs' using assms(3) by simp
  show "vs' ! unat i0 = vs ! unat i0" unfolding vs' i using r assms(3) by simp
  show "vs' ! unat i = vs ! unat i0 * (if even i0 then s div n else n div s) + vs ! unat ((i0 - 1) AND 3)"
    unfolding vs' using r assms(3) unfolding i by simp
qed

lemma compress_step_Inl:
  "compress_step i0 s n vs = Inl err \<Longrightarrow> (if even i0 then n = 0 else s = 0)"
  using ring_parity[of i0]
  by (auto simp: compress_step_def mpz_fdiv_qr_def Let_def split: if_splits)

text \<open>The slot before the exit index was tested against the root one pass earlier.\<close>

lemma compress_loop_previous_below_root:
  assumes "compress_loop root i0 s n vs = Inr (i, s', n', vs')"
    "i0 \<le> 3" "length vs = 4" "vs ! unat i0 < root"
  shows "vs' ! unat ((i - 1) AND 3) < root"
  using assms
proof (induction root i0 s n vs rule: compress_loop.induct)
  case (1 root i0 s n vs)
  from "1.prems"(1) obtain i1 s1 n1 vs1 where
    step: "compress_step i0 s n vs = Inr (i1, s1, n1, vs1)"
    by (subst (asm) compress_loop.simps) (auto split: sum.splits)
  note ring = compress_step_ring[OF step "1.prems"(2,3)]
  show ?case
  proof (cases "vs1 ! unat i1 < root")
    case True
    then have "compress_loop root i1 s1 n1 vs1 = Inr (i, s', n', vs')"
      using "1.prems"(1) step by (subst (asm) compress_loop.simps) simp
    then show ?thesis
      using "1.IH"[OF step refl refl refl True _ ring(1,2) True] by simp
  next
    case False
    then have "(i, s', n', vs') = (i1, s1, n1, vs1)"
      using "1.prems"(1) step by (subst (asm) compress_loop.simps) simp
    then show ?thesis using ring(3,4) "1.prems"(4) by simp
  qed
qed

lemma compress_loop_decreases:
  assumes "compress_loop root i0 s n vs = Inr (i, s', n', vs')" "0 \<le> s" "0 \<le> n"
  shows "0 \<le> s' \<and> s' \<le> s \<and> 0 \<le> n' \<and> n' \<le> n"
  using assms
proof (induction root i0 s n vs rule: compress_loop.induct)
  case (1 root i0 s n vs)
  from "1.prems"(1) obtain i1 s1 n1 vs1 where
    step: "compress_step i0 s n vs = Inr (i1, s1, n1, vs1)"
    by (subst (asm) compress_loop.simps) (auto split: sum.splits)
  have bounds: "0 \<le> s1 \<and> s1 \<le> s \<and> 0 \<le> n1 \<and> n1 \<le> n"
  proof (cases "even i0")
    case True
    from compress_step_even[OF step True] "1.prems"(2,3) show ?thesis
      by (simp add: zmod_le_nonneg_dividend)
  next
    case False
    from compress_step_odd[OF step False] "1.prems"(2,3) show ?thesis
      by (simp add: zmod_le_nonneg_dividend)
  qed
  show ?case
  proof (cases "vs1 ! unat i1 < root")
    case True
    then have "compress_loop root i1 s1 n1 vs1 = Inr (i, s', n', vs')"
      using "1.prems"(1) step by (subst (asm) compress_loop.simps) simp
    then have "0 \<le> s' \<and> s' \<le> s1 \<and> 0 \<le> n' \<and> n' \<le> n1"
      using "1.IH"[OF step refl refl refl True] bounds by simp
    then show ?thesis using bounds by linarith
  next
    case False
    then have "(i, s', n', vs') = (i1, s1, n1, vs1)"
      using "1.prems"(1) step by (subst (asm) compress_loop.simps) simp
    then show ?thesis using bounds by simp
  qed
qed


text \<open>The integer square root.\<close>

lemma isqrt_correct: "isqrt n * isqrt n \<le> n \<and> n < (isqrt n + 1) * (isqrt n + 1)"
  by (induction n) (auto simp: Let_def)

lemma isqrt_ge_2: "4 \<le> n \<Longrightarrow> 2 \<le> isqrt n"
proof (rule ccontr)
  assume n: "4 \<le> n" and "\<not> 2 \<le> isqrt n"
  then have "isqrt n + 1 \<le> 2" by linarith
  then have "(isqrt n + 1) * (isqrt n + 1) \<le> 2 * 2" by (intro mult_le_mono)
  then show False using isqrt_correct[of n] n by simp
qed

subsection \<open>Leaving the loop\<close>

text \<open>With the divisor non-zero whenever the latest convergent is still below the root,
  the loop returns.\<close>

lemma compress_loop_returns:
  assumes "i0 \<le> 3" "length vs = 4" "0 \<le> s" "0 \<le> n"
    "vs ! unat i0 * (if even i0 then s else n)
       + vs ! unat ((i0 - 1) AND 3) * (if even i0 then n else s) = N"
    "0 < N" "gcd s n * root \<le> N"
    "(if even i0 then n else s) = 0 \<longrightarrow> vs ! unat i0 < root"
  shows "\<exists>r. compress_loop root i0 s n vs = Inr r"
  using assms
proof (induction root i0 s n vs rule: compress_loop.induct)
  case (1 root i0 s n vs)
  define a where "a = (if even i0 then s else n)"
  define b where "b = (if even i0 then n else s)"
  define c1 where "c1 = vs ! unat i0"
  define c0 where "c0 = vs ! unat ((i0 - 1) AND 3)"
  have ab: "0 \<le> a" "0 \<le> b" "gcd a b = gcd s n"
    using "1.prems"(3,4) by (auto simp: a_def b_def gcd.commute)
  have inv: "c1 * a + c0 * b = N"
    using "1.prems"(5) by (simp add: a_def b_def c1_def c0_def)
  have b0: "b \<noteq> 0"
  proof
    assume "b = 0"
    then have lt: "c1 < root" using "1.prems"(8) by (simp add: b_def c1_def)
    from \<open>b = 0\<close> inv have N: "c1 * a = N" by simp
    with "1.prems"(6) ab(1) have "0 < a" by (cases "a = 0") auto
    have "gcd s n = a" using ab \<open>b = 0\<close> by simp
    then have "a * root \<le> a * c1" using "1.prems"(7) N by (simp add: mult.commute)
    then have "root \<le> c1" using \<open>0 < a\<close> by simp
    then show False using lt by simp
  qed
  obtain i1 s1 n1 vs1 where step: "compress_step i0 s n vs = Inr (i1, s1, n1, vs1)"
  proof (cases "compress_step i0 s n vs")
    case (Inl err)
    then show ?thesis using compress_step_Inl[OF Inl] b0 by (auto simp: b_def split: if_splits)
  next
    case (Inr r)
    then show ?thesis using that by (cases r) auto
  qed
  note ring = compress_step_ring[OF step "1.prems"(1,2)]
  show ?case
  proof (cases "vs1 ! unat i1 < root")
    case False
    then show ?thesis using step by (subst compress_loop.simps) simp
  next
    case True
    have i1: "i1 = (i0 + 1) AND 3"
      using step by (auto simp: compress_step_def mpz_fdiv_qr_def Let_def split: if_splits)
    have par: "even i1 \<longleftrightarrow> odd i0" unfolding i1 by (rule ring_parity)
    have new: "s1 = (if even i0 then a mod b else b)" "n1 = (if even i0 then b else a mod b)"
      using compress_step_even[OF step] compress_step_odd[OF step]
      by (auto simp: a_def b_def)
    have c1': "vs1 ! unat i1 = c1 * (a div b) + c0"
      using ring(5) by (simp add: a_def b_def c1_def c0_def)
    have c0': "vs1 ! unat ((i1 - 1) AND 3) = c1"
      using ring(3,4) by (simp add: c1_def)
    define d r where "d = a div b" and "r = a mod b"
    have a_eq: "a = d * b + r" by (simp add: d_def r_def)
    have "(c1 * d + c0) * b + c1 * r = c1 * a + c0 * b"
      unfolding a_eq by (simp add: algebra_simps)
    then have inv': "(c1 * (a div b) + c0) * b + c1 * (a mod b) = N"
      using inv by (simp only: d_def r_def)
    have nonneg: "0 \<le> s1" "0 \<le> n1"
      using ab b0 by (auto simp: new)
    have "gcd s1 n1 = gcd a b"
      by (auto simp: new gcd.commute gcd_red_int[of a b])
    then have g: "gcd s1 n1 * root \<le> N" using "1.prems"(7) ab(3) by simp
    have "\<exists>r. compress_loop root i1 s1 n1 vs1 = Inr r"
    proof (rule "1.IH"[OF step refl refl refl True ring(1,2) nonneg _ "1.prems"(6) g])
      show "vs1 ! unat i1 * (if even i1 then s1 else n1)
          + vs1 ! unat ((i1 - 1) AND 3) * (if even i1 then n1 else s1) = N"
        using inv' by (simp add: par new c1' c0')
      show "(if even i1 then n1 else s1) = 0 \<longrightarrow> vs1 ! unat i1 < root"
        using True by simp
    qed
    then show ?thesis using step True by (subst compress_loop.simps) simp
  qed
qed

lemma compress_loop_even_shrinks:
  assumes "compress_loop root i0 s n vs = Inr (i, s', n', vs')" "even i0" "0 \<le> n" "n < s"
  shows "s' < s"
proof -
  from assms(1) obtain i1 s1 n1 vs1 where
    step: "compress_step i0 s n vs = Inr (i1, s1, n1, vs1)"
    by (subst (asm) compress_loop.simps) (auto split: sum.splits)
  from compress_step_even[OF step assms(2)] have n0: "n \<noteq> 0" and s1: "s1 = s mod n" and n1: "n1 = n"
    by simp_all
  have "0 < n" using n0 assms(3) by simp
  then have lt: "0 \<le> s1" "s1 < n" unfolding s1 by simp_all
  show ?thesis
  proof (cases "vs1 ! unat i1 < root")
    case True
    then have "compress_loop root i1 s1 n1 vs1 = Inr (i, s', n', vs')"
      using assms(1) step by (subst (asm) compress_loop.simps) simp
    from compress_loop_decreases[OF this] lt assms(3) n1 have "s' \<le> s1" by simp
    then show ?thesis using lt assms(4) by simp
  next
    case False
    then have "(i, s', n', vs') = (i1, s1, n1, vs1)"
      using assms(1) step by (subst (asm) compress_loop.simps) simp
    then show ?thesis using lt assms(4) by simp
  qed
qed


text \<open>The only failure inside the loop is a division by zero.\<close>

lemma compress_step_error: "compress_step i0 s n vs = Inl err \<Longrightarrow> err = DivideByZero"
  by (auto simp: compress_step_def mpz_fdiv_qr_def Let_def split: if_splits)

lemma compress_loop_error:
  assumes "compress_loop root i0 s n vs = Inl err"
  shows "err = DivideByZero"
  using assms
proof (induction root i0 s n vs rule: compress_loop.induct)
  case (1 root i0 s n vs)
  show ?case
  proof (cases "compress_step i0 s n vs")
    case (Inl e)
    then have "err = e" using "1.prems" by (subst (asm) compress_loop.simps) simp
    then show ?thesis using compress_step_error[OF Inl] by simp
  next
    case (Inr r)
    obtain i1 s1 n1 vs1 where r: "r = (i1, s1, n1, vs1)" by (cases r)
    have step: "compress_step i0 s n vs = Inr (i1, s1, n1, vs1)" using Inr r by simp
    have lt: "vs1 ! unat i1 < root"
      using "1.prems" step by (subst (asm) compress_loop.simps) (simp split: if_splits)
    then have "compress_loop root i1 s1 n1 vs1 = Inl err"
      using "1.prems" step by (subst (asm) compress_loop.simps) simp
    then show ?thesis by (rule "1.IH"[OF step refl refl refl lt])
  qed
qed

text \<open>A convergent that reaches the root bounds the common divisor.\<close>

lemma compress_loop_returns_only_if:
  assumes "compress_loop root i0 s n vs = Inr res"
    "i0 \<le> 3" "length vs = 4" "0 \<le> s" "0 \<le> n"
    "0 \<le> vs ! unat i0" "0 \<le> vs ! unat ((i0 - 1) AND 3)"
    "vs ! unat i0 * (if even i0 then s else n)
       + vs ! unat ((i0 - 1) AND 3) * (if even i0 then n else s) = N"
    "0 \<le> root"
  shows "gcd s n * root \<le> N"
  using assms
proof (induction root i0 s n vs rule: compress_loop.induct)
  case (1 root i0 s n vs)
  define a where "a = (if even i0 then s else n)"
  define b where "b = (if even i0 then n else s)"
  define c1 where "c1 = vs ! unat i0"
  define c0 where "c0 = vs ! unat ((i0 - 1) AND 3)"
  have ab: "0 \<le> a" "0 \<le> b" "gcd a b = gcd s n"
    using "1.prems"(4,5) by (auto simp: a_def b_def gcd.commute)
  have c: "0 \<le> c1" "0 \<le> c0" using "1.prems"(6,7) by (simp_all add: c1_def c0_def)
  have inv: "c1 * a + c0 * b = N"
    using "1.prems"(8) by (simp add: a_def b_def c1_def c0_def)
  from "1.prems"(1) obtain i1 s1 n1 vs1 where
    step: "compress_step i0 s n vs = Inr (i1, s1, n1, vs1)"
    by (subst (asm) compress_loop.simps) (auto split: sum.splits)
  note ring = compress_step_ring[OF step "1.prems"(2,3)]
  have i1: "i1 = (i0 + 1) AND 3"
    using step by (auto simp: compress_step_def mpz_fdiv_qr_def Let_def split: if_splits)
  have par: "even i1 \<longleftrightarrow> odd i0" unfolding i1 by (rule ring_parity)
  have b0: "b \<noteq> 0"
    using compress_step_even[OF step] compress_step_odd[OF step] by (auto simp: b_def)
  then have bpos: "0 < b" using ab(2) by simp
  have new: "s1 = (if even i0 then a mod b else b)" "n1 = (if even i0 then b else a mod b)"
    using compress_step_even[OF step] compress_step_odd[OF step]
    by (auto simp: a_def b_def)
  have c1': "vs1 ! unat i1 = c1 * (a div b) + c0"
    using ring(5) by (simp add: a_def b_def c1_def c0_def)
  have c0': "vs1 ! unat ((i1 - 1) AND 3) = c1"
    using ring(3,4) by (simp add: c1_def)
  have q0: "0 \<le> a div b" using ab(1) bpos by (simp add: pos_imp_zdiv_nonneg_iff)
  have r0: "0 \<le> a mod b" using bpos by simp
  define d r where "d = a div b" and "r = a mod b"
  have a_eq: "a = d * b + r" by (simp add: d_def r_def)
  have "(c1 * d + c0) * b + c1 * r = c1 * a + c0 * b"
    unfolding a_eq by (simp add: algebra_simps)
  then have inv': "(c1 * (a div b) + c0) * b + c1 * (a mod b) = N"
    using inv by (simp only: d_def r_def)
  have nonneg: "0 \<le> s1" "0 \<le> n1" using ab r0 by (auto simp: new)
  have c2: "0 \<le> c1 * (a div b) + c0" using c q0 by simp
  have g: "gcd s1 n1 = gcd s n"
    using ab(3) by (auto simp: new gcd.commute gcd_red_int[of a b])
  show ?case
  proof (cases "vs1 ! unat i1 < root")
    case True
    then have loop: "compress_loop root i1 s1 n1 vs1 = Inr res"
      using "1.prems"(1) step by (subst (asm) compress_loop.simps) simp
    have "gcd s1 n1 * root \<le> N"
    proof (rule "1.IH"[OF step refl refl refl True loop ring(1,2) nonneg _ _ _ "1.prems"(9)])
      show "0 \<le> vs1 ! unat i1" using c2 by (simp add: c1')
      show "0 \<le> vs1 ! unat ((i1 - 1) AND 3)" using c by (simp add: c0')
      show "vs1 ! unat i1 * (if even i1 then s1 else n1)
          + vs1 ! unat ((i1 - 1) AND 3) * (if even i1 then n1 else s1) = N"
        using inv' by (simp add: par new c1' c0')
    qed
    then show ?thesis by (simp only: g)
  next
    case False
    then have root: "root \<le> c1 * (a div b) + c0" by (simp add: c1')
    have "gcd a b dvd b" by simp
    then have gb: "gcd a b \<le> b" using bpos by (rule zdvd_imp_le)
    have "gcd a b * root \<le> b * root"
      using gb "1.prems"(9) by (rule mult_right_mono)
    also have "\<dots> \<le> b * (c1 * (a div b) + c0)"
      using root ab(2) by (rule mult_left_mono)
    also have "\<dots> \<le> (c1 * (a div b) + c0) * b + c1 * (a mod b)"
      using c(1) r0 by (simp add: mult.commute)
    finally show ?thesis using inv' ab(3) by simp
  qed
qed

subsection \<open>Claims about \<^verbatim>\<open>signature_compress\<close>\<close>

lemma signature_compress_loop:
  assumes "signature_compress s n = Inr (zsig, s', n')"
  obtains i vs where "0 \<le> n"
    "compress_loop (int (isqrt (nat n))) 1 s n [0, 1, 0, 0] = Inr (i, s', n', vs)"
    "zsig = vs ! unat ((i - 1) AND 3)"
  using assms
  by (auto simp: signature_compress_def mpz_sqrt_def split: sum.splits if_splits)

lemma compress_first_step:
  assumes "s \<noteq> 0"
  shows "compress_step 1 s n [0, 1, 0, 0] = Inr (2, s, n mod s, [0, 1, n div s, 0])"
  using assms by (simp add: compress_step_def mpz_fdiv_qr_def)

text \<open>
  C3.  That the returned \<open>zsig\<close> is strictly below the integer square root of the original
  \<open>n\<close>, for every \<open>s\<close>, holds from \<open>n = 4\<close> on: whenever
  \<^verbatim>\<open>signature_compress\<close> returns for a modulus \<open>n \<ge> 4\<close>, the value it returns, the ring slot
  before the one that stopped the loop, is below \<open>isqrt n\<close>, the root computed once from the
  original \<open>n\<close>.
\<close>

theorem signature_compress_below_root:
  assumes "signature_compress s n = Inr (zsig, s', n')" "4 \<le> n"
  shows "zsig < int (isqrt (nat n))"
proof -
  obtain i vs where
    loop: "compress_loop (int (isqrt (nat n))) 1 s n [0, 1, 0, 0] = Inr (i, s', n', vs)"
    and z: "zsig = vs ! unat ((i - 1) AND 3)"
    using signature_compress_loop[OF assms(1)] by blast
  have "2 \<le> isqrt (nat n)" using assms(2) by (intro isqrt_ge_2) simp
  then have "[0, 1, 0, 0] ! unat (1 :: 32 word) < int (isqrt (nat n))" by simp
  from compress_loop_previous_below_root[OF loop _ _ this] show ?thesis by (simp add: z)
qed

text \<open>The hypotheses of C3 hold for the signature 8 modulo 21.\<close>

theorem signature_compress_below_root_witness:
  "signature_compress 8 21 = Inr (3, 3, 2) \<and> (4 :: int) \<le> 21 \<and> (3 :: int) < int (isqrt (nat 21))"
proof -
  have h1: "signature_compress 8 21 = Inr (3, 3, 2)" by code_simp
  have h2: "(4 :: int) \<le> 21" by simp
  from signature_compress_below_root[OF h1 h2] h1 h2 show ?thesis by simp
qed

text \<open>
  For \<open>n = 2\<close> the loop stops in its first pass and returns the initial slot
  \<open>vs[1] = 1\<close>, which is not below \<open>isqrt 2 = 1\<close>.
\<close>

theorem signature_compress_small_modulus_counterexample:
  "signature_compress 1 2 = Inr (1, 1, 0) \<and> \<not> (1 :: int) < int (isqrt (nat 2))"
  by code_simp

text \<open>
  C10.  For \<open>0 < s < n\<close> the loop of \<^verbatim>\<open>signature_compress\<close> reaches its exit,
  and the function returns, exactly when \<open>gcd s n * isqrt n \<le> n\<close> (in particular whenever \<open>s\<close>
  and \<open>n\<close> are coprime); otherwise the run ends in a division by zero.  The model is a total
  function whose measure decreases with each Euclidean division, so the loop always
  stops, one way or the other.
\<close>

theorem signature_compress_returns:
  assumes "0 < s" "s < n"
  shows "if gcd s n * int (isqrt (nat n)) \<le> n
         then \<exists>zsig s' n'. signature_compress s n = Inr (zsig, s', n')
         else signature_compress s n = Inl DivideByZero"
proof (cases "gcd s n * int (isqrt (nat n)) \<le> n")
  case True
  have "\<exists>r. compress_loop (int (isqrt (nat n))) 1 s n [0, 1, 0, 0] = Inr r"
    using assms True by (intro compress_loop_returns[where N = n]) simp_all
  then obtain i s' n' vs where
    "compress_loop (int (isqrt (nat n))) 1 s n [0, 1, 0, 0] = Inr (i, s', n', vs)"
    by (metis prod_cases4)
  then show ?thesis using assms True by (simp add: signature_compress_def mpz_sqrt_def)
next
  case False
  have sq: "mpz_sqrt n = Inr (int (isqrt (nat n)))" using assms by (simp add: mpz_sqrt_def)
  show ?thesis
  proof (cases "compress_loop (int (isqrt (nat n))) 1 s n [0, 1, 0, 0]")
    case (Inl err)
    then show ?thesis
      using compress_loop_error[OF Inl] False sq by (simp add: signature_compress_def)
  next
    case (Inr r)
    have "gcd s n * int (isqrt (nat n)) \<le> n"
      using assms by (intro compress_loop_returns_only_if[OF Inr]) simp_all
    then show ?thesis using False by simp
  qed
qed

text \<open>The hypotheses of C10 hold for the signature 8 modulo 21.\<close>

theorem signature_compress_returns_witness:
  "(0 :: int) < 8 \<and> (8 :: int) < 21 \<and> gcd 8 21 * int (isqrt (nat 21)) \<le> 21
     \<and> (\<exists>zsig s' n'. signature_compress 8 21 = Inr (zsig, s', n'))"
proof -
  have h1: "(0 :: int) < 8" and h2: "(8 :: int) < 21" by simp_all
  have h3: "gcd 8 21 * int (isqrt (nat 21)) \<le> 21" by code_simp
  from signature_compress_returns[OF h1 h2] h1 h2 h3 show ?thesis by simp
qed

text \<open>
  For \<open>s = 6\<close>, \<open>n = 12\<close> the first division leaves the remainder 0 while the convergent 2
  is still below \<open>isqrt 12 = 3\<close>; the second pass divides by zero.
\<close>

theorem signature_compress_common_factor_counterexample:
  "(0 :: int) < 6 \<and> (6 :: int) < 12 \<and> signature_compress 6 12 = Inl DivideByZero"
  by code_simp

text \<open>
  C8.  \<^verbatim>\<open>signature_compress\<close> writes to its argument \<open>s\<close>: on return the
  caller's signature variable holds a remainder \<open>s'\<close> of the Euclidean algorithm with
  \<open>0 \<le> s' \<le> s\<close>, and it still holds the signature only when the loop stopped in its first
  pass, that is, when \<open>n div s\<close> already reaches \<open>isqrt n\<close>.
\<close>

theorem signature_compress_overwrites_signature:
  assumes "signature_compress s n = Inr (zsig, s', n')" "0 < s" "0 < n"
  shows "0 \<le> s' \<and> s' \<le> s \<and> (s' = s \<longleftrightarrow> int (isqrt (nat n)) \<le> n div s)"
proof -
  define root where "root = int (isqrt (nat n))"
  obtain i vs where
    loop: "compress_loop root 1 s n [0, 1, 0, 0] = Inr (i, s', n', vs)"
    using signature_compress_loop[OF assms(1)] unfolding root_def by blast
  have bounds: "0 \<le> s' \<and> s' \<le> s"
    using compress_loop_decreases[OF loop] assms(2,3) by simp
  have step: "compress_step 1 s n [0, 1, 0, 0] = Inr (2, s, n mod s, [0, 1, n div s, 0])"
    using assms(2) by (intro compress_first_step) simp
  show ?thesis
  proof (cases "n div s < root")
    case True
    then have "compress_loop root 2 s (n mod s) [0, 1, n div s, 0] = Inr (i, s', n', vs)"
      using loop step by (subst (asm) compress_loop.simps) simp
    then have "s' < s"
      by (rule compress_loop_even_shrinks) (use assms(2) in simp_all)
    then show ?thesis using bounds True by (simp add: root_def)
  next
    case False
    then have "s' = s"
      using loop step by (subst (asm) compress_loop.simps) simp
    then show ?thesis using bounds False by (simp add: root_def)
  qed
qed

text \<open>The hypotheses of C8 hold for the signature 8 modulo 21, which is overwritten by 3.\<close>

theorem signature_compress_overwrites_signature_witness:
  "signature_compress 8 21 = Inr (3, 3, 2) \<and> (0 :: int) < 8 \<and> (0 :: int) < 21
     \<and> (0 :: int) \<le> 3 \<and> (3 :: int) \<le> 8 \<and> ((3 :: int) = 8 \<longleftrightarrow> int (isqrt (nat 21)) \<le> 21 div 8)"
proof -
  have h1: "signature_compress 8 21 = Inr (3, 3, 2)" by code_simp
  have h2: "(0 :: int) < 8" and h3: "(0 :: int) < 21" by simp_all
  from signature_compress_overwrites_signature[OF h1 h2 h3] h1 h2 h3 show ?thesis by blast
qed

text \<open>
  For \<open>p = 3\<close>, \<open>q = 7\<close>, \<open>e = 1\<close> and root selector 1 the signature is 8, and the
  compressor returns with 3 in its place.
\<close>

theorem signature_overwritten_counterexample:
  "root_extractor 1 3 7 21 (- 6) 7 1 = 8 \<and> signature_compress 8 21 = Inr (3, 3, 2)"
  by code_simp

section \<open>The prime generator\<close>

lemma is_prime_iff: "is_prime p \<longleftrightarrow> 1 < p \<and> (\<forall>d\<in>{2..<p}. \<not> d dvd p)"
  by (auto simp: is_prime_def list_all_iff)


lemma prime_candidate_odd: "odd (prime_candidate mod8 buffer)"
  by (simp add: prime_candidate_def mpz_setbit_def mpz_clrbit_def Let_def even_set_bit_iff even_unset_bit_iff)

lemma mod8_bits_sum:
  "(y :: int) mod 8 = of_bool (bit y 0) + 2 * of_bool (bit y 1) + 4 * of_bool (bit y 2)"
proof -
  have "y mod 8 = take_bit (Suc (Suc (Suc 0))) y" by (simp add: take_bit_eq_mod)
  also have "\<dots> = of_bool (odd y) + 2 * of_bool (odd (y div 2)) + 4 * of_bool (odd (y div 2 div 2))"
    by (simp only: take_bit_Suc take_bit_0 mod_2_eq_odd) simp
  also have "odd y = bit y 0" by (simp add: bit_0)
  also have "odd (y div 2) = bit y 1" by (simp add: bit_iff_odd_drop_bit drop_bit_eq_div)
  also have "odd (y div 2 div 2) = bit y 2"
    by (simp add: bit_iff_odd_drop_bit drop_bit_eq_div eval_nat_numeral div_mult2_eq flip: zdiv_zmult2_eq)
  finally show ?thesis .
qed

lemma prime_candidate_mod8:
  "prime_candidate mod8 buffer mod 8
     = 1 + 2 * of_bool (mod8 AND 2 \<noteq> 0) + 4 * of_bool (mod8 AND 4 \<noteq> 0)"
  by (simp add: prime_candidate_def mpz_setbit_def mpz_clrbit_def Let_def mod8_bits_sum bit_simps)

lemma mod8_requested:
  assumes "mod8 < 8"
  shows "1 + 2 * of_bool (mod8 AND 2 \<noteq> 0) + 4 * of_bool (mod8 AND 4 \<noteq> 0)
           = (if odd mod8 then int mod8 else int mod8 + 1)"
proof -
  have "mod8 \<in> {0, 1, 2, 3, 4, 5, 6, 7}" using assms by auto
  then show ?thesis by auto
qed


lemma init_random_prime_loop_accepts:
  assumes "init_random_prime_loop mpz_probab_prime_p bytes mod8 src = Some r"
  shows "case r of Inl err \<Rightarrow> True
         | Inr (n, rest) \<Rightarrow>
             mpz_probab_prime_p n 10 \<noteq> 0 \<and> (\<exists>buffer. n = prime_candidate mod8 buffer)"
proof -
  let ?P = "\<lambda>(test :: int \<Rightarrow> int \<Rightarrow> int) (bytes :: nat) (mod8 :: nat) (src :: urandom) r.
    case r of Inl (err :: fatal) \<Rightarrow> True
    | Inr (n, rest :: urandom) \<Rightarrow> test n 10 \<noteq> 0 \<and> (\<exists>buffer. n = prime_candidate mod8 buffer)"
  show ?thesis
  proof (rule init_random_prime_loop.raw_induct[where P = ?P, OF _ assms], goal_cases)
    case (1 f test bytes mod8 src r)
    show ?case
    proof (cases "read_exact bytes src")
      case (Inl err)
      with 1(2) show ?thesis by auto
    next
      case (Inr br)
      obtain buffer rest where br: "br = (buffer, rest)" by (cases br)
      show ?thesis
      proof (cases "test (prime_candidate mod8 buffer) 10 \<noteq> 0")
        case True
        with 1(2) Inr br show ?thesis by auto
      next
        case False
        with 1(2) Inr br have "f test bytes mod8 rest = Some r" by simp
        from 1(1)[OF this] show ?thesis .
      qed
    qed
  qed
qed

text \<open>
  C7.  For every bit length and every requested residue \<open>mod8\<close> in 0 to 7, a number that
  \<^verbatim>\<open>init_random_prime\<close> accepts is odd, has passed the probabilistic primality test run with
  10 rounds, for which the error probability is at most one in \<open>4 ^ 10\<close>, and is congruent
  modulo 8 to \<open>mod8\<close> when \<open>mod8\<close> is odd, and to \<open>mod8 + 1\<close> when it is even: bit 0 is
  forced after the import, and only bits 1 and 2 are copied from \<open>mod8\<close>.
\<close>

theorem init_random_prime_accepts:
  assumes "init_random_prime mpz_probab_prime_p sz mod8 src = Some (Inr (n, rest))" "mod8 < 8"
  shows "odd n
       \<and> mpz_probab_prime_p n 10 \<noteq> 0 \<and> 4 ^ 10 \<le> inverse_error_bound 10
       \<and> n mod 8 = (if odd mod8 then int mod8 else int mod8 + 1)"
proof -
  from assms(1)
  have "init_random_prime_loop mpz_probab_prime_p (drop_bit 3 sz) mod8 src = Some (Inr (n, rest))"
    by (simp add: init_random_prime_def Let_def split: if_splits)
  from init_random_prime_loop_accepts[OF this]
  obtain buffer where n: "n = prime_candidate mod8 buffer"
    and pp: "mpz_probab_prime_p n 10 \<noteq> 0" by auto
  have "odd n" unfolding n by (rule prime_candidate_odd)
  moreover have "n mod 8 = (if odd mod8 then int mod8 else int mod8 + 1)"
    unfolding n prime_candidate_mod8 by (rule mod8_requested[OF assms(2)])
  moreover have "4 ^ 10 \<le> inverse_error_bound 10"
    by (simp add: inverse_error_bound_def)
  ultimately show ?thesis using pp by simp
qed

text \<open>The hypotheses of C7 hold for the call \<^verbatim>\<open>init_random_prime(p, urfd, 512, 3)\<close> of \<^verbatim>\<open>main\<close>
  on 64 zero bytes.\<close>

theorem init_random_prime_accepts_witness:
  "init_random_prime trial_division 512 3 [Bytes (replicate 64 0)] = Some (Inr (3, []))
     \<and> (3 :: nat) < 8 \<and> odd (3 :: int) \<and> trial_division 3 10 \<noteq> 0
     \<and> 4 ^ 10 \<le> inverse_error_bound 10 \<and> (3 :: int) mod 8 = 3"
proof -
  have h1: "init_random_prime trial_division 512 3 [Bytes (replicate 64 0)] = Some (Inr (3, []))"
    by code_simp
  have h2: "(3 :: nat) < 8" by simp
  from init_random_prime_accepts[OF h1 h2] h1 h2 show ?thesis by simp
qed

text \<open>Asked for residue 2, the generator accepts 3.\<close>

theorem init_random_prime_even_residue_counterexample:
  "init_random_prime trial_division 512 2 [Bytes (replicate 64 0)] = Some (Inr (3, []))
     \<and> trial_division 3 10 \<noteq> 0 \<and> (3 :: int) mod 8 \<noteq> 2"
  by code_simp

section \<open>Primes of the form \<open>4 j + 3\<close>\<close>

text \<open>
  The arithmetic behind the oracle, the tweak and the root extraction: Fermat's little
  theorem, the square root \<open>e ^ ((p + 1) / 4)\<close>, Euler's criterion for \<open>p \<equiv> 3 (mod 4)\<close>,
  and the quadratic character of 2.
\<close>

subsection \<open>Divisibility by a prime\<close>

lemma is_prime_divisors:
  assumes "is_prime p" "d dvd p" "0 < d"
  shows "d = 1 \<or> d = p"
proof -
  from assms have "d \<le> p" by (simp add: is_prime_iff zdvd_imp_le)
  with assms show ?thesis unfolding is_prime_iff by force
qed

lemma is_prime_coprime:
  assumes "is_prime p" "\<not> p dvd a"
  shows "coprime p a"
proof -
  have "gcd p a dvd p" by simp
  moreover have "0 < gcd p a" using assms by (auto simp: is_prime_iff gcd_pos_int)
  ultimately have "gcd p a = 1 \<or> gcd p a = p" using is_prime_divisors[OF assms(1)] by blast
  moreover have "gcd p a \<noteq> p" using assms(2) by (metis gcd_dvd2)
  ultimately show ?thesis by (simp add: coprime_iff_gcd_eq_1)
qed

lemma is_prime_dvd_mult:
  assumes "is_prime p" "p dvd a * b"
  shows "p dvd a \<or> p dvd b"
  using assms is_prime_coprime coprime_dvd_mult_right_iff by blast

subsection \<open>Fermat's little theorem\<close>

lemma is_prime_dvd_choose:
  assumes "is_prime p" "0 < k" "k < nat p"
  shows "p dvd int (nat p choose k)"
proof -
  have "k * (nat p choose k) = nat p * ((nat p - 1) choose (k - 1))"
    using times_binomial_minus1_eq[OF assms(2)] by simp
  then have "int (k * (nat p choose k)) = int (nat p * ((nat p - 1) choose (k - 1)))"
    by simp
  then have "int k * int (nat p choose k) = p * int ((nat p - 1) choose (k - 1))"
    using assms(1) by (simp add: is_prime_iff)
  then have "p dvd int k * int (nat p choose k)" by simp
  moreover have "\<not> p dvd int k"
    using assms by (auto dest: zdvd_imp_le)
  ultimately show ?thesis using is_prime_dvd_mult[OF assms(1)] by blast
qed

lemma freshman_step:
  assumes "is_prime p"
  shows "p dvd (x + 1) ^ nat p - x ^ nat p - 1"
proof -
  define P where "P = nat p"
  have "1 < p" using assms by (simp add: is_prime_iff)
  then have P2: "2 \<le> P" unfolding P_def by linarith
  have "(x + 1) ^ P = (\<Sum>k\<le>P. int (P choose k) * x ^ k)"
    using binomial_ring[of x 1 P] by simp
  also have "{..P} = insert 0 (insert P {1..<P})" using P2 by auto
  also have "(\<Sum>k\<in>insert 0 (insert P {1..<P}). int (P choose k) * x ^ k)
      = 1 + x ^ P + (\<Sum>k\<in>{1..<P}. int (P choose k) * x ^ k)"
    using P2 by simp
  finally have "(x + 1) ^ P - x ^ P - 1 = (\<Sum>k\<in>{1..<P}. int (P choose k) * x ^ k)"
    by simp
  moreover have "p dvd (\<Sum>k\<in>{1..<P}. int (P choose k) * x ^ k)"
  proof (rule dvd_sum)
    fix k assume "k \<in> {1..<P}"
    then have "p dvd int (P choose k)"
      using is_prime_dvd_choose[OF assms, of k] by (simp add: P_def)
    then show "p dvd int (P choose k) * x ^ k" by simp
  qed
  ultimately show ?thesis by (simp add: P_def)
qed

lemma fermat_nat:
  assumes "is_prime p"
  shows "int a ^ nat p mod p = int a mod p"
proof (induction a)
  case 0
  have "nat p \<noteq> 0" using assms by (simp add: is_prime_iff)
  then have z: "(0::int) ^ nat p = 0" by (simp only: power_0_left if_False)
  show ?case unfolding int_ops(1) z by (rule refl)
next
  case (Suc a)
  have "p dvd (int a + 1) ^ nat p - int a ^ nat p - 1"
    by (rule freshman_step[OF assms])
  then have "(int a + 1) ^ nat p mod p = (int a ^ nat p + 1) mod p"
    by (metis diff_diff_eq mod_eq_dvd_iff)
  also have "\<dots> = (int a ^ nat p mod p + 1) mod p" by (simp add: mod_add_left_eq)
  also have "\<dots> = (int a + 1) mod p" by (simp add: Suc.IH mod_add_left_eq)
  finally show ?case by (simp add: add.commute)
qed

lemma fermat_pow_p:
  assumes "is_prime p"
  shows "a ^ nat p mod p = a mod p"
proof -
  have pos: "0 < p" using assms by (simp add: is_prime_iff)
  then have "0 \<le> a mod p" by simp
  then obtain b where b: "a mod p = int b" using nonneg_int_cases by blast
  have "a ^ nat p mod p = (a mod p) ^ nat p mod p" by (simp add: power_mod)
  also have "\<dots> = (a mod p) mod p" unfolding b by (rule fermat_nat[OF assms])
  finally show ?thesis by simp
qed

lemma fermat_little:
  assumes "is_prime p" "\<not> p dvd a"
  shows "a ^ nat (p - 1) mod p = 1"
proof -
  have p1: "1 < p" using assms by (simp add: is_prime_iff)
  then have split: "nat p = Suc (nat (p - 1))" by simp
  have "p dvd a ^ nat p - a"
    using fermat_pow_p[OF assms(1), of a] by (simp add: mod_eq_dvd_iff)
  also have "a ^ nat p - a = a * (a ^ nat (p - 1) - 1)"
    by (simp add: split algebra_simps)
  finally have "p dvd a ^ nat (p - 1) - 1"
    using is_prime_dvd_mult[OF assms(1)] assms(2) by blast
  then have "a ^ nat (p - 1) mod p = 1 mod p" by (simp add: mod_eq_dvd_iff)
  then show ?thesis using p1 by simp
qed



subsection \<open>Square roots and Euler's criterion\<close>

lemma is_prime_gt1: "is_prime p \<Longrightarrow> 1 < p"
  by (simp add: is_prime_iff)

lemma quadratic_residue_iff:
  assumes "0 < p"
  shows "quadratic_residue e p \<longleftrightarrow> (\<exists>x. x * x mod p = e mod p)"
proof
  assume "quadratic_residue e p"
  then show "\<exists>x. x * x mod p = e mod p" by (auto simp: quadratic_residue_def list_ex_iff)
next
  assume "\<exists>x. x * x mod p = e mod p"
  then obtain x where x: "x * x mod p = e mod p" ..
  have "x mod p < p" using assms by simp
  then have "x mod p \<in> set [0..p - 1]" using assms by simp
  moreover have "(x mod p) * (x mod p) mod p = e mod p"
    using x by (simp add: mod_mult_eq)
  ultimately show "quadratic_residue e p" unfolding quadratic_residue_def list_ex_iff by blast
qed

lemma quadratic_residueI:
  assumes "0 < p" "x * x mod p = e mod p"
  shows "quadratic_residue e p"
  using quadratic_residue_iff[OF assms(1), of e] assms(2) by blast

lemma power_square_add: "(x * x) ^ k = (x::int) ^ (k + k)"
  by (simp only: power_mult_distrib power_add)

text \<open>Exponent bookkeeping for a prime of the form 4 j + 3.\<close>

lemma three_mod_four_exponents:
  assumes "1 < p" "p mod 4 = 3"
  obtains J where "nat ((p + 1) div 4) = Suc J" "nat (p - 1) = 4 * J + 2"
    "nat ((p - 1) div 2) = 2 * J + 1" "p = 4 * int J + 3"
proof -
  define J where "J = nat (p div 4)"
  have p: "p = 4 * (p div 4) + 3" using assms(2) by presburger
  have nn: "0 \<le> p div 4" using assms(1) by simp
  have 1: "(p + 1) div 4 = p div 4 + 1" using assms(2) by presburger
  have 2: "(p - 1) div 2 = 2 * (p div 4) + 1" using assms(2) by presburger
  have "nat ((p + 1) div 4) = Suc J" unfolding 1 J_def using nn by (simp add: nat_add_distrib)
  moreover have "nat (p - 1) = 4 * J + 2" unfolding J_def using p nn by linarith
  moreover have "nat ((p - 1) div 2) = 2 * J + 1" unfolding 2 J_def using nn by linarith
  moreover have "p = 4 * int J + 3" unfolding J_def using p nn by simp
  ultimately show ?thesis using that by blast
qed

lemma sqrt_three_mod_four:
  assumes "is_prime p" "p mod 4 = 3" "x * x mod p = e mod p"
  shows "(e ^ nat ((p + 1) div 4)) * (e ^ nat ((p + 1) div 4)) mod p = e mod p"
proof -
  obtain J where J: "nat ((p + 1) div 4) = Suc J" "nat (p - 1) = 4 * J + 2"
    using three_mod_four_exponents[OF is_prime_gt1[OF assms(1)] assms(2)] by blast
  have "e ^ Suc J * e ^ Suc J = e ^ (Suc J + Suc J)" by (rule power_add [symmetric])
  also have "Suc J + Suc J = 2 * J + 2" by simp
  finally have "(e ^ Suc J) * (e ^ Suc J) mod p = (e mod p) ^ (2 * J + 2) mod p"
    by (simp only: power_mod)
  also have "\<dots> = (x * x) ^ (2 * J + 2) mod p"
    unfolding assms(3)[symmetric] by (simp only: power_mod)
  also have "(x * x) ^ (2 * J + 2) = x ^ (4 * J + 2) * (x * x)"
  proof -
    have "(x * x) ^ (2 * J + 2) = x ^ ((2 * J + 2) + (2 * J + 2))"
      by (rule power_square_add)
    also have "(2 * J + 2) + (2 * J + 2) = (4 * J + 2) + 2" by simp
    also have "x ^ ((4 * J + 2) + 2) = x ^ (4 * J + 2) * (x * x)"
      by (simp only: power_add power2_eq_square)
    finally show ?thesis .
  qed
  also have "x ^ (4 * J + 2) * (x * x) mod p = (x ^ nat (p - 1) mod p) * (x * x) mod p"
    by (simp add: J mod_mult_left_eq)
  also have "\<dots> = x * x mod p"
  proof (cases "p dvd x")
    case True
    then have "p dvd x * x" by simp
    then have z: "x * x mod p = 0" by (simp add: mod_eq_0_iff_dvd)
    have "(x ^ nat (p - 1) mod p) * (x * x) mod p = (x ^ nat (p - 1) mod p) * (x * x mod p) mod p"
      by (simp only: mod_mult_right_eq)
    then show ?thesis by (simp only: z mult_zero_right mod_0)
  next
    case False
    then show ?thesis by (simp add: fermat_little[OF assms(1)])
  qed
  finally have "e ^ Suc J * e ^ Suc J mod p = x * x mod p" .
  then show ?thesis by (simp only: J assms(3))
qed

lemma euler_plus_minus:
  assumes "is_prime p" "odd p" "\<not> p dvd a"
  shows "a ^ nat ((p - 1) div 2) mod p = 1 \<or> a ^ nat ((p - 1) div 2) mod p = p - 1"
proof -
  define h where "h = a ^ nat ((p - 1) div 2)"
  have p1: "1 < p" by (rule is_prime_gt1[OF assms(1)])
  have "nat (p - 1) = nat ((p - 1) div 2) + nat ((p - 1) div 2)"
    using assms(2) p1 by (auto elim!: oddE)
  then have "h * h = a ^ nat (p - 1)" by (simp add: h_def power_add)
  then have "h * h mod p = 1" using fermat_little[OF assms(1,3)] by simp
  then have "p dvd h * h - 1" using p1 by (metis mod_eq_dvd_iff mod_pos_pos_trivial zero_le_one)
  also have "h * h - 1 = (h - 1) * (h + 1)" by (simp add: algebra_simps)
  finally have "p dvd h - 1 \<or> p dvd h + 1" using is_prime_dvd_mult[OF assms(1)] by blast
  then show ?thesis
  proof
    assume "p dvd h - 1"
    then have "h mod p = 1 mod p" by (simp add: mod_eq_dvd_iff)
    then show ?thesis using p1 by (simp add: h_def)
  next
    assume "p dvd h + 1"
    then have "p dvd h - (- 1)" by simp
    then have "h mod p = (- 1) mod p" by (simp only: mod_eq_dvd_iff)
    also have "(- 1) mod p = p - 1" using p1 by (simp add: zmod_minus1)
    finally show ?thesis by (simp add: h_def)
  qed
qed

lemma quadratic_residue_euler:
  assumes "is_prime p" "p mod 4 = 3"
  shows "quadratic_residue a p \<longleftrightarrow> p dvd a \<or> a ^ nat ((p - 1) div 2) mod p = 1"
proof -
  have p1: "1 < p" by (rule is_prime_gt1[OF assms(1)])
  obtain J where J: "nat ((p + 1) div 4) = Suc J" "nat (p - 1) = 4 * J + 2"
    "nat ((p - 1) div 2) = 2 * J + 1"
    using three_mod_four_exponents[OF p1 assms(2)] by blast
  show ?thesis
  proof (intro iffI)
    assume "quadratic_residue a p"
    then obtain x where x: "x * x mod p = a mod p"
      using quadratic_residue_iff[of p a] p1 by auto
    show "p dvd a \<or> a ^ nat ((p - 1) div 2) mod p = 1"
    proof (cases "p dvd x")
      case True
      then have "p dvd x * x" by simp
      then have "a mod p = 0" using x by (simp add: mod_eq_0_iff_dvd)
      then show ?thesis by (simp add: mod_eq_0_iff_dvd)
    next
      case False
      have "a ^ (2 * J + 1) mod p = (a mod p) ^ (2 * J + 1) mod p" by (simp only: power_mod)
      also have "\<dots> = (x * x) ^ (2 * J + 1) mod p" unfolding x[symmetric] by (simp only: power_mod)
      also have "(x * x) ^ (2 * J + 1) = x ^ nat (p - 1)"
      proof -
        have "(x * x) ^ (2 * J + 1) = x ^ ((2 * J + 1) + (2 * J + 1))"
          by (rule power_square_add)
        also have "(2 * J + 1) + (2 * J + 1) = nat (p - 1)" unfolding J by simp
        finally show ?thesis .
      qed
      also have "\<dots> mod p = 1" by (rule fermat_little[OF assms(1) False])
      finally show ?thesis by (simp add: J)
    qed
  next
    assume h: "p dvd a \<or> a ^ nat ((p - 1) div 2) mod p = 1"
    show "quadratic_residue a p"
    proof (cases "p dvd a")
      case True
      then have "a mod p = 0" by (simp add: mod_eq_0_iff_dvd)
      then have "0 * 0 mod p = a mod p" by (simp only: mult_zero_left mod_0)
      then show ?thesis by (rule quadratic_residueI[rotated]) (use p1 in simp)
    next
      case False
      with h have one: "a ^ (2 * J + 1) mod p = 1" by (simp add: J)
      define r where "r = a ^ Suc J"
      have "r * r = a ^ (Suc J + Suc J)" unfolding r_def by (rule power_add [symmetric])
      also have "Suc J + Suc J = (2 * J + 1) + 1" by simp
      also have "a ^ ((2 * J + 1) + 1) = a ^ (2 * J + 1) * a" by (simp only: power_add power_one_right)
      finally have "r * r = a ^ (2 * J + 1) * a" .
      then have "r * r mod p = (a ^ (2 * J + 1) mod p) * a mod p" by (simp only: mod_mult_left_eq)
      then have "r * r mod p = a mod p" by (simp only: one mult_1)
      then show ?thesis by (rule quadratic_residueI[rotated]) (use p1 in simp)
    qed
  qed
qed



subsection \<open>The quadratic character of 2\<close>

lemma is_prime_dvd_prod:
  assumes "is_prime p" "finite A" "p dvd prod g A"
  shows "\<exists>k\<in>A. p dvd g k"
  using assms(2,3)
proof (induction A rule: finite_induct)
  case empty
  then show ?case using is_prime_gt1[OF assms(1)] by simp
next
  case (insert x F)
  then have "p dvd g x * prod g F" by simp
  then have "p dvd g x \<or> p dvd prod g F" by (rule is_prime_dvd_mult[OF assms(1)])
  then show ?case using insert.IH by auto
qed

lemma gauss_fold_image:
  assumes "odd p"
  shows "gauss_fold p ` {1..(p - 1) div 2} = {1..(p - 1) div 2}"
proof (rule endo_inj_surj)
  show "finite {1..(p - 1) div 2}" by simp
  show "gauss_fold p ` {1..(p - 1) div 2} \<subseteq> {1..(p - 1) div 2}"
    using assms unfolding gauss_fold_def by (auto elim!: oddE)
  show "inj_on (gauss_fold p) {1..(p - 1) div 2}"
    unfolding inj_on_def gauss_fold_def
  proof (intro ballI impI)
    fix j k
    assume "j \<in> {1..(p - 1) div 2}" "k \<in> {1..(p - 1) div 2}"
      and "(if 2 * j \<le> (p - 1) div 2 then 2 * j else p - 2 * j) =
           (if 2 * k \<le> (p - 1) div 2 then 2 * k else p - 2 * k)"
    then show "j = k" using assms by (auto split: if_splits elim!: oddE) presburger+
  qed
qed

lemma gauss_fold_cong:
  "gauss_fold p k mod p = gauss_sign p k * (2 * k) mod p"
proof (cases "2 * k \<le> (p - 1) div 2")
  case True
  then show ?thesis by (simp add: gauss_fold_def gauss_sign_def)
next
  case False
  have "(p - 2 * k) mod p = (- (2 * k)) mod p"
    by (metis mod_diff_left_eq mod_self diff_0)
  then show ?thesis using False by (simp add: gauss_fold_def gauss_sign_def)
qed

lemma gauss_sign_prod:
  assumes "0 \<le> m" "m = (p - 1) div 2"
  shows "prod (gauss_sign p) {1..m} = (- 1) ^ nat (m - m div 2)"
proof -
  have "prod (gauss_sign p) {1..m}
      = prod (\<lambda>k. 1) ({1..m} \<inter> {k. 2 * k \<le> m}) * prod (\<lambda>k. - 1) ({1..m} \<inter> - {k. 2 * k \<le> m})"
    unfolding gauss_sign_def assms(2)[symmetric] by (rule prod.If_cases) simp
  also have "{1..m} \<inter> - {k. 2 * k \<le> m} = {m div 2 + 1..m}" by auto
  also have "prod (\<lambda>k. - 1 :: int) {m div 2 + 1..m} = (- 1) ^ card {m div 2 + 1..m}"
    by (rule prod_constant)
  also have "card {m div 2 + 1..m} = nat (m - m div 2)" by simp
  finally show ?thesis by simp
qed

lemma two_power_half:
  assumes "is_prime p" "odd p"
  shows "(- 1) ^ nat ((p - 1) div 2 - (p - 1) div 2 div 2) * 2 ^ nat ((p - 1) div 2) mod p = 1"
proof -
  define m where "m = (p - 1) div 2"
  define A where "A = {1..m}"
  define F where "F = prod (\<lambda>k. k) A"
  define S where "S = (- 1 :: int) ^ nat (m - m div 2)"
  have p1: "1 < p" by (rule is_prime_gt1[OF assms(1)])
  have m0: "0 \<le> m" using p1 by (simp add: m_def)
  have "F = prod (\<lambda>k. k) (gauss_fold p ` A)"
    unfolding F_def A_def m_def by (simp only: gauss_fold_image[OF assms(2)])
  also have "\<dots> = prod (gauss_fold p) A"
  proof -
    have "inj_on (gauss_fold p) A"
      unfolding A_def m_def
      by (rule eq_card_imp_inj_on) (simp_all only: gauss_fold_image[OF assms(2)] finite_atLeastAtMost_int)
    then show ?thesis by (simp add: prod.reindex)
  qed
  finally have "F mod p = prod (gauss_fold p) A mod p" by simp
  also have "\<dots> = prod (\<lambda>k. gauss_fold p k mod p) A mod p" by (simp only: mod_prod_eq)
  also have "\<dots> = prod (\<lambda>k. gauss_sign p k * (2 * k) mod p) A mod p"
    by (simp only: gauss_fold_cong)
  also have "\<dots> = prod (\<lambda>k. gauss_sign p k * (2 * k)) A mod p" by (simp only: mod_prod_eq)
  also have "prod (\<lambda>k. gauss_sign p k * (2 * k)) A = prod (gauss_sign p) A * (2 ^ card A * F)"
    unfolding F_def by (simp add: prod.distrib)
  also have "prod (gauss_sign p) A = S"
    unfolding S_def A_def by (rule gauss_sign_prod[OF m0 m_def])
  also have "card A = nat m" by (simp add: A_def)
  finally have "F mod p = (S * 2 ^ nat m) * F mod p" by (simp only: mult.assoc)
  then have "(S * 2 ^ nat m) * F mod p = F mod p" by (rule sym)
  then have "p dvd (S * 2 ^ nat m) * F - F" by (simp only: mod_eq_dvd_iff)
  also have "(S * 2 ^ nat m) * F - F = (S * 2 ^ nat m - 1) * F" by (simp add: algebra_simps)
  finally have "p dvd S * 2 ^ nat m - 1 \<or> p dvd F" by (rule is_prime_dvd_mult[OF assms(1)])
  moreover have "\<not> p dvd F"
  proof
    assume "p dvd F"
    then obtain k where k: "k \<in> A" "p dvd k"
      using is_prime_dvd_prod[OF assms(1), of A "\<lambda>k. k"] by (auto simp: F_def A_def)
    then have "0 < k" "k < p" using assms(2) p1 by (auto simp: A_def m_def elim!: oddE)
    then show False using k(2) by (auto dest: zdvd_imp_le)
  qed
  ultimately have "p dvd S * 2 ^ nat m - 1" by blast
  then have "S * 2 ^ nat m mod p = 1 mod p" by (simp add: mod_eq_dvd_iff)
  then show ?thesis using p1 by (simp add: S_def m_def)
qed

lemma minus_one_power_half:
  assumes "1 < p" "p mod 4 = 3"
  shows "(- 1) ^ nat ((p - 1) div 2) = (- 1 :: int)"
proof -
  obtain J where "nat ((p - 1) div 2) = 2 * J + 1"
    using three_mod_four_exponents[OF assms] by blast
  then show ?thesis by simp
qed

lemma two_power_half_3mod8:
  assumes "is_prime p" "p mod 8 = 3"
  shows "2 ^ nat ((p - 1) div 2) mod p = p - 1"
proof -
  have p1: "1 < p" by (rule is_prime_gt1[OF assms(1)])
  have "odd p" using assms(2) by presburger
  have "odd ((p - 1) div 2 - (p - 1) div 2 div 2)" using assms(2) by presburger
  moreover have "0 \<le> (p - 1) div 2 - (p - 1) div 2 div 2" using p1 by linarith
  ultimately have "odd (nat ((p - 1) div 2 - (p - 1) div 2 div 2))"
    by (simp add: even_nat_iff)
  then have "(- 1 :: int) ^ nat ((p - 1) div 2 - (p - 1) div 2 div 2) = - 1" by simp
  then have "(- (2 ^ nat ((p - 1) div 2))) mod p = 1"
    using two_power_half[OF assms(1) \<open>odd p\<close>] by simp
  then have "p dvd - (2 ^ nat ((p - 1) div 2)) - 1"
    using p1 by (metis mod_eq_dvd_iff mod_pos_pos_trivial zero_le_one)
  then have "p dvd 2 ^ nat ((p - 1) div 2) - (- 1)"
    by (metis dvd_minus_iff minus_diff_eq diff_minus_eq_add add.commute uminus_add_conv_diff)
  then have "2 ^ nat ((p - 1) div 2) mod p = (- 1) mod p" by (simp only: mod_eq_dvd_iff)
  also have "(- 1) mod p = p - 1" using p1 by (simp add: zmod_minus1)
  finally show ?thesis .
qed

lemma two_power_half_7mod8:
  assumes "is_prime p" "p mod 8 = 7"
  shows "2 ^ nat ((p - 1) div 2) mod p = 1"
proof -
  have p1: "1 < p" by (rule is_prime_gt1[OF assms(1)])
  have "odd p" using assms(2) by presburger
  have "even ((p - 1) div 2 - (p - 1) div 2 div 2)" using assms(2) by presburger
  moreover have "0 \<le> (p - 1) div 2 - (p - 1) div 2 div 2" using p1 by linarith
  ultimately have "even (nat ((p - 1) div 2 - (p - 1) div 2 div 2))"
    by (simp add: even_nat_iff)
  then have "(- 1 :: int) ^ nat ((p - 1) div 2 - (p - 1) div 2 div 2) = 1" by simp
  then show ?thesis using two_power_half[OF assms(1) \<open>odd p\<close>] by simp
qed

section \<open>The oracle and the group builder\<close>

lemma cdiv_four:
  assumes "p mod 4 = 3"
  shows "mpz_cdiv_q_2exp (p + 1) 2 = (p + 1) div 4"
proof -
  have "- ((- (p + 1)) div 4) = (p + 1) div 4" using assms by presburger
  then show ?thesis by (simp add: mpz_cdiv_q_2exp_def)
qed

lemma is_quadratic_residue_correct:
  assumes "is_prime p" "p mod 4 = 3"
  shows "is_quadratic_residue e p ((p + 1) div 4) \<longleftrightarrow> quadratic_residue e p"
proof -
  define r where "r = e ^ nat ((p + 1) div 4) mod p"
  have p0: "0 < p" using is_prime_gt1[OF assms(1)] by simp
  then have orc: "is_quadratic_residue e p ((p + 1) div 4) \<longleftrightarrow> r * r mod p = e mod p"
    by (simp add: is_quadratic_residue_def mpz_mod_def mpz_powm_def Let_def r_def)
  show ?thesis
  proof
    assume "is_quadratic_residue e p ((p + 1) div 4)"
    then have "r * r mod p = e mod p" by (simp only: orc)
    then show "quadratic_residue e p" by (rule quadratic_residueI[OF p0])
  next
    assume "quadratic_residue e p"
    then obtain x where "x * x mod p = e mod p"
      using quadratic_residue_iff[OF p0] by blast
    from sqrt_three_mod_four[OF assms this]
    have "r * r mod p = e mod p" unfolding r_def by (simp only: mod_mult_eq)
    then show "is_quadratic_residue e p ((p + 1) div 4)" by (simp only: orc)
  qed
qed

text \<open>
  C6.  For every prime \<open>p \<equiv> 3 (mod 4)\<close>, exponent \<open>pw = (p + 1) / 4\<close> and every
  element \<open>e\<close>, \<^verbatim>\<open>is_quadratic_residue(e, p, pw)\<close> returns non-zero if and only if some \<open>x\<close>
  has \<open>x\<^sup>2 \<equiv> e (mod p)\<close>; what it tests is \<open>r\<^sup>2 \<equiv> e (mod p)\<close> for \<open>r = e ^ pw mod p\<close>.
\<close>

theorem is_quadratic_residue_decides:
  assumes "is_prime p" "p mod 4 = 3" "pw = (p + 1) div 4"
  shows "(is_quadratic_residue e p pw \<longleftrightarrow> quadratic_residue e p)
       \<and> (is_quadratic_residue e p pw
            \<longleftrightarrow> (e ^ nat pw mod p) * (e ^ nat pw mod p) mod p = e mod p)"
proof
  show "is_quadratic_residue e p pw \<longleftrightarrow> quadratic_residue e p"
    unfolding assms(3) by (rule is_quadratic_residue_correct[OF assms(1,2)])
  have "0 < p" using is_prime_gt1[OF assms(1)] by simp
  then show "is_quadratic_residue e p pw \<longleftrightarrow> (e ^ nat pw mod p) * (e ^ nat pw mod p) mod p = e mod p"
    by (simp add: is_quadratic_residue_def mpz_mod_def mpz_powm_def Let_def)
qed

lemma distinct_primes_coprime:
  assumes "is_prime p" "is_prime q" "p \<noteq> q"
  shows "coprime p q"
proof (rule is_prime_coprime[OF assms(1)])
  show "\<not> p dvd q"
  proof
    assume "p dvd q"
    moreover have "0 < p" "p \<noteq> 1" using is_prime_gt1[OF assms(1)] by simp_all
    ultimately show False using is_prime_divisors[OF assms(2), of p] assms(3) by simp
  qed
qed

lemma xgcd_bezout:
  assumes "0 \<le> p" "0 \<le> q" "xgcd p q = (u0, v0)"
  shows "u0 * p + v0 * q = gcd p q"
proof -
  have "int (gcd (nat p) (nat q)) = fst (bezw (nat p) (nat q)) * int (nat p)
      + snd (bezw (nat p) (nat q)) * int (nat q)"
    by (rule bezw_aux)
  moreover have "int (gcd (nat p) (nat q)) = gcd p q"
    using assms(1,2) by (simp add: gcd_int_def)
  ultimately show ?thesis using assms by (simp add: xgcd_def)
qed

lemma bezout_idempotents:
  fixes p q u0 v0 :: int
  assumes "1 < p" "1 < q" "u0 * p + v0 * q = 1"
  shows "(u0 * p + v0 * q) mod (p * q) = 1" "u0 * p mod p = 0" "u0 * p mod q = 1"
    "v0 * q mod p = 1" "v0 * q mod q = 0"
proof -
  have "1 * 1 < p * q" by (rule mult_strict_mono) (use assms(1,2) in simp_all)
  then show "(u0 * p + v0 * q) mod (p * q) = 1" unfolding assms(3) by simp
  show "u0 * p mod p = 0" "v0 * q mod q = 0" by simp_all
  have "u0 * p = 1 + (- v0) * q" using assms(3) by simp
  then have "u0 * p mod q = (1 + (- v0) * q) mod q" by (rule arg_cong)
  also have "\<dots> = 1 mod q" by (rule mod_mult_self1)
  finally show "u0 * p mod q = 1" using assms(2) by simp
  have "v0 * q = 1 + (- u0) * p" using assms(3) by simp
  then have "v0 * q mod p = (1 + (- u0) * p) mod p" by (rule arg_cong)
  also have "\<dots> = 1 mod p" by (rule mod_mult_self1)
  finally show "v0 * q mod p = 1" using assms(1) by simp
qed

text \<open>
  C5.  For distinct primes \<open>p\<close> and \<open>q\<close> the group builder returns \<open>n = p q\<close> and
  coefficients \<open>u = u0 p\<close>, \<open>v = v0 q\<close> with \<open>(u + v) mod n = 1\<close>, \<open>u mod p = 0\<close>,
  \<open>u mod q = 1\<close>, \<open>v mod p = 1\<close> and \<open>v mod q = 0\<close>.
\<close>

theorem group_builder_idempotents:
  assumes "is_prime p" "is_prime q" "p \<noteq> q" "group_builder p q = (n, u, v)"
  shows "n = p * q \<and> (u + v) mod n = 1 \<and> u mod p = 0 \<and> u mod q = 1 \<and> v mod p = 1 \<and> v mod q = 0"
proof -
  obtain u0 v0 where x: "xgcd p q = (u0, v0)" by (cases "xgcd p q")
  have p1: "1 < p" and q1: "1 < q" using assms(1,2) by (simp_all add: is_prime_gt1)
  have "gcd p q = 1" using distinct_primes_coprime[OF assms(1-3)] by simp
  then have bez: "u0 * p + v0 * q = 1" using xgcd_bezout[OF _ _ x] p1 q1 by simp
  have nuv: "n = p * q" "u = u0 * p" "v = v0 * q"
    using assms(4) x by (simp_all add: group_builder_def)
  show ?thesis unfolding nuv using bezout_idempotents[OF p1 q1 bez] by simp
qed

text \<open>The hypotheses of C5 hold for \<open>p = 3\<close>, \<open>q = 7\<close>.\<close>

theorem group_builder_idempotents_witness:
  "is_prime 3 \<and> is_prime 7 \<and> (3 :: int) \<noteq> 7 \<and> group_builder 3 7 = (21, - 6, 7)
     \<and> (21 :: int) = 3 * 7 \<and> (- 6 + 7) mod 21 = (1 :: int) \<and> (- 6) mod 3 = (0 :: int)
     \<and> (- 6) mod 7 = (1 :: int) \<and> 7 mod 3 = (1 :: int) \<and> 7 mod 7 = (0 :: int)"
proof -
  have h1: "is_prime 3" and h2: "is_prime 7" by code_simp+
  have h3: "(3 :: int) \<noteq> 7" by simp
  have h4: "group_builder 3 7 = (21, - 6, 7)" by code_simp
  from group_builder_idempotents[OF h1 h2 h3 h4] h1 h2 h3 h4 show ?thesis by simp
qed

text \<open>The hypotheses of C6 hold for \<open>p = 7\<close>: 2 is a residue, 3 is not.\<close>

theorem is_quadratic_residue_decides_witness:
  "is_prime 7 \<and> (7 :: int) mod 4 = 3 \<and> (2 :: int) = (7 + 1) div 4
     \<and> (is_quadratic_residue 2 7 2 \<longleftrightarrow> quadratic_residue 2 7)
     \<and> is_quadratic_residue 2 7 2 \<and> \<not> is_quadratic_residue 3 7 2"
proof -
  have h1: "is_prime 7" by code_simp
  have h2: "(7 :: int) mod 4 = 3" and h3: "(2 :: int) = (7 + 1) div 4" by simp_all
  have h4: "is_quadratic_residue 2 7 2" and h5: "\<not> is_quadratic_residue 3 7 2" by code_simp+
  from is_quadratic_residue_decides[OF h1 h2 h3, of 2] h1 h2 h3 h4 h5 show ?thesis by blast
qed

section \<open>The root extractor\<close>

lemma crt_component:
  fixes p n u v a b :: int
  assumes "p dvd n" "u mod p = 0" "v mod p = 1 mod p"
  shows "((a * v + b * u) mod n) mod p = a mod p"
proof -
  have "p dvd u" using assms(2) by (simp add: mod_eq_0_iff_dvd)
  moreover have "p dvd v - 1" using assms(3) by (simp only: mod_eq_dvd_iff)
  ultimately have "p dvd a * (v - 1) + b * u" by simp
  also have "a * (v - 1) + b * u = (a * v + b * u) - a" by (simp add: algebra_simps)
  finally have "(a * v + b * u) mod p = a mod p" by (simp only: mod_eq_dvd_iff)
  moreover have "((a * v + b * u) mod n) mod p = (a * v + b * u) mod p"
    by (rule mod_mod_cancel[OF assms(1)])
  ultimately show ?thesis by simp
qed

lemma signed_root_square:
  fixes e p :: int
  assumes "is_prime p" "p mod 4 = 3" "quadratic_residue e p"
    "s mod p = (if c then - (e ^ nat ((p + 1) div 4) mod p) else e ^ nat ((p + 1) div 4) mod p) mod p"
  shows "p dvd s * s - e"
proof -
  define r where "r = e ^ nat ((p + 1) div 4) mod p"
  have p0: "0 < p" using is_prime_gt1[OF assms(1)] by simp
  obtain x where "x * x mod p = e mod p"
    using assms(3) quadratic_residue_iff[OF p0] by blast
  from sqrt_three_mod_four[OF assms(1,2) this]
  have rr: "r * r mod p = e mod p" unfolding r_def by (simp only: mod_mult_eq)
  have "s * s mod p = (s mod p) * (s mod p) mod p" by (simp only: mod_mult_eq)
  also have "s mod p = (if c then - r else r) mod p" using assms(4) by (simp only: r_def)
  also have "((if c then - r else r) mod p) * ((if c then - r else r) mod p) mod p
      = (if c then - r else r) * (if c then - r else r) mod p"
    by (simp only: mod_mult_eq)
  also have "(if c then - r else r) * (if c then - r else r) = r * r" by simp
  finally have "s * s mod p = e mod p" using rr by simp
  then show ?thesis by (simp only: mod_eq_dvd_iff)
qed

text \<open>
  C1.  Let \<open>p\<close> and \<open>q\<close> be distinct primes congruent to 3 modulo 4, \<open>n = p q\<close>,
  and \<open>u = u0 p\<close>, \<open>v = v0 q\<close> with \<open>u0 p + v0 q = 1\<close> as the group builder makes them.  For
  every element \<open>0 \<le> e < n\<close> that is a quadratic residue modulo both primes and for every
  value of the root selector, the signature
  \<open>s = (\<plusminus> e ^ ((p + 1) / 4) mod p) v + (\<plusminus> e ^ ((q + 1) / 4) mod q) u\<close> reduced modulo \<open>n\<close>
  satisfies \<open>s s mod n = e\<close>.
\<close>

theorem root_extractor_square:
  assumes "is_prime p" "is_prime q" "p \<noteq> q" "p mod 4 = 3" "q mod 4 = 3"
    "u0 * p + v0 * q = 1"
    "quadratic_residue e p" "quadratic_residue e q" "0 \<le> e" "e < p * q"
  shows "root_extractor e p q (p * q) (u0 * p) (v0 * q) root
           * root_extractor e p q (p * q) (u0 * p) (v0 * q) root mod (p * q) = e"
proof -
  define a where "a = (if root AND 1 \<noteq> 0 then - (e ^ nat ((p + 1) div 4) mod p)
                       else e ^ nat ((p + 1) div 4) mod p)"
  define b where "b = (if root AND 2 \<noteq> 0 then - (e ^ nat ((q + 1) div 4) mod q)
                       else e ^ nat ((q + 1) div 4) mod q)"
  define s where "s = root_extractor e p q (p * q) (u0 * p) (v0 * q) root"
  have p1: "1 < p" and q1: "1 < q" using assms(1,2) by (simp_all add: is_prime_gt1)
  then have n0: "0 < p * q" by simp
  have s: "s = (a * (v0 * q) + b * (u0 * p)) mod (p * q)"
    using p1 q1 n0
    by (simp add: s_def root_extractor_def Let_def mpz_mod_def mpz_powm_def
        cdiv_four[OF assms(4)] cdiv_four[OF assms(5)] a_def b_def)
  note idem = bezout_idempotents[OF p1 q1 assms(6)]
  have "s mod p = a mod p"
    unfolding s by (rule crt_component) (use idem p1 in simp_all)
  then have dp: "p dvd s * s - e"
    unfolding a_def by (rule signed_root_square[OF assms(1,4,7)])
  have "s = (b * (u0 * p) + a * (v0 * q)) mod (q * p)"
    unfolding s by (simp only: add.commute mult.commute)
  then have "s mod q = b mod q"
    using crt_component[of q "q * p" "v0 * q" "u0 * p" b a] idem q1 by simp
  then have dq: "q dvd s * s - e"
    unfolding b_def by (rule signed_root_square[OF assms(2,5,8)])
  have "p * q dvd s * s - e"
    using dp dq distinct_primes_coprime[OF assms(1-3)] by (rule divides_mult)
  then have "s * s mod (p * q) = e mod (p * q)" by (simp only: mod_eq_dvd_iff)
  then show ?thesis using assms(9,10) by (simp add: s_def)
qed

text \<open>The hypotheses of C1 hold for \<open>p = 3\<close>, \<open>q = 7\<close>, \<open>e = 4\<close>; the signature is 2.\<close>

theorem root_extractor_square_witness:
  "is_prime 3 \<and> is_prime 7 \<and> (3 :: int) \<noteq> 7 \<and> (3 :: int) mod 4 = 3 \<and> (7 :: int) mod 4 = 3
     \<and> (- 2) * 3 + 1 * 7 = (1 :: int)
     \<and> quadratic_residue 4 3 \<and> quadratic_residue 4 7 \<and> (0 :: int) \<le> 4 \<and> (4 :: int) < 3 * 7
     \<and> root_extractor 4 3 7 (3 * 7) ((- 2) * 3) (1 * 7) 1 = 2
     \<and> root_extractor 4 3 7 (3 * 7) ((- 2) * 3) (1 * 7) 1
           * root_extractor 4 3 7 (3 * 7) ((- 2) * 3) (1 * 7) 1 mod (3 * 7) = 4"
proof -
  have h1: "is_prime 3" and h2: "is_prime 7" by code_simp+
  have h3: "(3 :: int) \<noteq> 7" and h4: "(3 :: int) mod 4 = 3" and h5: "(7 :: int) mod 4 = 3"
    and h6: "(- 2) * 3 + 1 * 7 = (1 :: int)" by simp_all
  have h7: "quadratic_residue 4 3" and h8: "quadratic_residue 4 7" by code_simp+
  have h9: "(0 :: int) \<le> 4" and h10: "(4 :: int) < 3 * 7" by simp_all
  have v: "root_extractor 4 3 7 (3 * 7) ((- 2) * 3) (1 * 7) 1 = 2" by code_simp
  from root_extractor_square[OF h1 h2 h3 h4 h5 h6 h7 h8 h9 h10, of 1]
    h1 h2 h3 h4 h5 h6 h7 h8 h9 h10 v
  show ?thesis by blast
qed

section \<open>The residue tweaker\<close>

lemma quadratic_residue_mod:
  assumes "p dvd n"
  shows "quadratic_residue (x mod n) p \<longleftrightarrow> quadratic_residue x p"
  unfolding quadratic_residue_def by (simp only: mod_mod_cancel[OF assms])

lemma quadratic_residue_of_multiple:
  assumes "is_prime p" "p mod 4 = 3" "p dvd x"
  shows "quadratic_residue x p"
  using quadratic_residue_euler[OF assms(1,2), of x] assms(3) by simp

text \<open>Away from the multiples of \<open>p\<close>, a product is a residue exactly when both factors
  are residues or both are not.\<close>

lemma quadratic_residue_mult:
  assumes "is_prime p" "p mod 4 = 3" "\<not> p dvd x" "\<not> p dvd y"
  shows "quadratic_residue (x * y) p \<longleftrightarrow> (quadratic_residue x p \<longleftrightarrow> quadratic_residue y p)"
proof -
  define m where "m = nat ((p - 1) div 2)"
  have p1: "1 < p" by (rule is_prime_gt1[OF assms(1)])
  have "odd p" using assms(2) by presburger
  have p3: "3 \<le> p" using assms(2) p1 by presburger
  have xy: "\<not> p dvd x * y" using is_prime_dvd_mult[OF assms(1)] assms(3,4) by blast
  have qr: "quadratic_residue z p \<longleftrightarrow> z ^ m mod p = 1" if "\<not> p dvd z" for z
    using quadratic_residue_euler[OF assms(1,2), of z] that by (simp add: m_def)
  have pm: "z ^ m mod p = 1 \<or> z ^ m mod p = p - 1" if "\<not> p dvd z" for z
    using euler_plus_minus[OF assms(1) \<open>odd p\<close> that] by (simp add: m_def)
  have mult: "(x * y) ^ m mod p = (x ^ m mod p) * (y ^ m mod p) mod p"
    by (simp only: power_mult_distrib mod_mult_eq)
  have sq: "(p - 1) * (p - 1) mod p = 1"
  proof -
    have "(p - 1) * (p - 1) = 1 + (p - 2) * p" by (simp add: algebra_simps)
    then have "(p - 1) * (p - 1) mod p = 1 mod p" by (simp only: mod_mult_self1)
    then show ?thesis using p1 by simp
  qed
  have neg: "(p - 1) mod p = p - 1" by (rule mod_pos_pos_trivial) (use p1 in simp_all)
  have ne: "p - 1 \<noteq> 1" using p3 by simp
  show ?thesis
    using pm[OF assms(3)] pm[OF assms(4)] p1 sq neg ne
    by (auto simp: qr[OF xy] qr[OF assms(3)] qr[OF assms(4)] mult)
qed

lemma minus_one_nonresidue:
  assumes "is_prime p" "p mod 4 = 3"
  shows "\<not> quadratic_residue (- 1) p" "\<not> p dvd - 1"
proof -
  have p1: "1 < p" by (rule is_prime_gt1[OF assms(1)])
  show nd: "\<not> p dvd - 1" using p1 by (auto dest: zdvd_imp_le)
  have "(- 1) ^ nat ((p - 1) div 2) mod p = (- 1) mod p"
    by (simp only: minus_one_power_half[OF p1 assms(2)])
  also have "\<dots> = p - 1" using p1 by (simp add: zmod_minus1)
  finally have "(- 1) ^ nat ((p - 1) div 2) mod p = p - 1" .
  moreover have "3 \<le> p" using assms(2) p1 by presburger
  ultimately have "(- 1) ^ nat ((p - 1) div 2) mod p \<noteq> 1" by linarith
  then show "\<not> quadratic_residue (- 1) p"
    using quadratic_residue_euler[OF assms, of "- 1"] nd by simp
qed

lemma two_residue:
  assumes "is_prime p" "p mod 8 = 3 \<or> p mod 8 = 7"
  shows "quadratic_residue 2 p \<longleftrightarrow> p mod 8 = 7" "\<not> p dvd 2"
proof -
  have p1: "1 < p" by (rule is_prime_gt1[OF assms(1)])
  have p4: "p mod 4 = 3" using assms(2) by presburger
  have p3: "3 \<le> p" using assms(2) p1 by presburger
  show nd: "\<not> p dvd 2" using p3 by (auto dest: zdvd_imp_le)
  show "quadratic_residue 2 p \<longleftrightarrow> p mod 8 = 7"
  proof (cases "p mod 8 = 7")
    case True
    then show ?thesis
      using quadratic_residue_euler[OF assms(1) p4, of 2] two_power_half_7mod8[OF assms(1)]
      by simp
  next
    case False
    then have "p mod 8 = 3" using assms(2) by simp
    then have "2 ^ nat ((p - 1) div 2) mod p = p - 1" by (rule two_power_half_3mod8[OF assms(1)])
    then have "2 ^ nat ((p - 1) div 2) mod p \<noteq> 1" using p3 by simp
    then show ?thesis
      using quadratic_residue_euler[OF assms(1) p4, of 2] nd False by simp
  qed
qed

lemma quadratic_residue_neg:
  assumes "is_prime p" "p mod 4 = 3" "\<not> p dvd x"
  shows "quadratic_residue (- x) p \<longleftrightarrow> \<not> quadratic_residue x p"
  using quadratic_residue_mult[OF assms(1,2) minus_one_nonresidue(2)[OF assms(1,2)] assms(3)]
    minus_one_nonresidue(1)[OF assms(1,2)]
  by simp

lemma quadratic_residue_double:
  assumes "is_prime p" "p mod 8 = 3 \<or> p mod 8 = 7" "\<not> p dvd x"
  shows "quadratic_residue (x * 2) p \<longleftrightarrow> (quadratic_residue x p \<longleftrightarrow> p mod 8 = 7)"
proof -
  have p4: "p mod 4 = 3" using assms(2) by presburger
  show ?thesis
    using quadratic_residue_mult[OF assms(1) p4 assms(3) two_residue(2)[OF assms(1,2)]]
      two_residue(1)[OF assms(1,2)]
    by simp
qed

text \<open>The four branches of the tweak, one modulus at a time.\<close>

lemma residue_tweak_cases:
  assumes "0 < n"
  shows "residue_tweak e True True n = e"
    "residue_tweak e False False n = (- e) mod n"
    "residue_tweak e True False n = (- e * 2) mod n"
    "residue_tweak e False True n = (e * 2) mod n"
  using assms by (simp_all add: residue_tweak_def mpz_mod_def)

lemma residue_tweak_p:
  assumes "is_prime p" "p mod 8 = 3" "p dvd n" "0 < n"
  shows "quadratic_residue (residue_tweak e (quadratic_residue e p) b n) p"
proof -
  have p4: "p mod 4 = 3" using assms(2) by presburger
  have p8: "p mod 8 = 3 \<or> p mod 8 = 7" "p mod 8 \<noteq> 7" using assms(2) by simp_all
  show ?thesis
  proof (cases "p dvd e")
    case True
    then have "p dvd residue_tweak e (quadratic_residue e p) b n"
      using assms(3,4) by (cases "quadratic_residue e p"; cases b)
        (simp_all add: residue_tweak_cases dvd_mod_iff)
    then show ?thesis by (rule quadratic_residue_of_multiple[OF assms(1) p4])
  next
    case False
    then have nd: "\<not> p dvd - e" by simp
    note neg = quadratic_residue_neg[OF assms(1) p4 False]
    note dbl = quadratic_residue_double[OF assms(1) p8(1)]
    show ?thesis
      using neg dbl[OF False] dbl[OF nd] p8(2) assms(4)
      by (cases "quadratic_residue e p"; cases b)
        (simp_all add: residue_tweak_cases quadratic_residue_mod[OF assms(3)])
  qed
qed

lemma residue_tweak_q:
  assumes "is_prime q" "q mod 8 = 7" "q dvd n" "0 < n"
  shows "quadratic_residue (residue_tweak e a (quadratic_residue e q) n) q"
proof -
  have q4: "q mod 4 = 3" using assms(2) by presburger
  have q8: "q mod 8 = 3 \<or> q mod 8 = 7" using assms(2) by simp
  show ?thesis
  proof (cases "q dvd e")
    case True
    then have "q dvd residue_tweak e a (quadratic_residue e q) n"
      using assms(3,4) by (cases "quadratic_residue e q"; cases a)
        (simp_all add: residue_tweak_cases dvd_mod_iff)
    then show ?thesis by (rule quadratic_residue_of_multiple[OF assms(1) q4])
  next
    case False
    then have nd: "\<not> q dvd - e" by simp
    note neg = quadratic_residue_neg[OF assms(1) q4 False]
    note dbl = quadratic_residue_double[OF assms(1) q8]
    show ?thesis
      using neg dbl[OF False] dbl[OF nd] assms(2,4)
      by (cases "quadratic_residue e q"; cases a)
        (simp_all add: residue_tweak_cases quadratic_residue_mod[OF assms(3)])
  qed
qed

text \<open>
  C4.  Let \<open>p \<equiv> 3 (mod 8)\<close> and \<open>q \<equiv> 7 (mod 8)\<close> be prime and \<open>n = p q\<close>.  For
  every element \<open>e\<close>, with \<open>a\<close> and \<open>b\<close> saying whether \<open>e\<close> is a quadratic residue modulo \<open>p\<close>
  and modulo \<open>q\<close> (all four combinations), the element that the tweak leaves (doubled when
  \<open>a \<noteq> b\<close>, negated when the updated \<open>a\<close> is false, reduced modulo \<open>n\<close> if changed) is a
  quadratic residue modulo \<open>p\<close> and modulo \<open>q\<close>.
\<close>

theorem residue_tweak_quadratic_residue:
  assumes "is_prime p" "p mod 8 = 3" "is_prime q" "q mod 8 = 7"
  shows "quadratic_residue
           (residue_tweak e (quadratic_residue e p) (quadratic_residue e q) (p * q)) p
       \<and> quadratic_residue
           (residue_tweak e (quadratic_residue e p) (quadratic_residue e q) (p * q)) q"
proof -
  have "1 < p" "1 < q" using assms(1,3) by (simp_all add: is_prime_gt1)
  then have n0: "0 < p * q" by simp
  have "quadratic_residue
      (residue_tweak e (quadratic_residue e p) (quadratic_residue e q) (p * q)) p"
    by (rule residue_tweak_p[OF assms(1,2) _ n0]) simp
  moreover have "quadratic_residue
      (residue_tweak e (quadratic_residue e p) (quadratic_residue e q) (p * q)) q"
    by (rule residue_tweak_q[OF assms(3,4) _ n0]) simp
  ultimately show ?thesis ..
qed

text \<open>
  The hypotheses of C4 hold for \<open>p = 3\<close>, \<open>q = 7\<close>; the element 10, a residue modulo 3 only,
  is doubled and negated to 1.
\<close>

theorem residue_tweak_quadratic_residue_witness:
  "is_prime 3 \<and> (3 :: int) mod 8 = 3 \<and> is_prime 7 \<and> (7 :: int) mod 8 = 7
     \<and> quadratic_residue 10 3 \<and> \<not> quadratic_residue 10 7
     \<and> residue_tweak 10 (quadratic_residue 10 3) (quadratic_residue 10 7) (3 * 7) = 1
     \<and> quadratic_residue
           (residue_tweak 10 (quadratic_residue 10 3) (quadratic_residue 10 7) (3 * 7)) 3
     \<and> quadratic_residue
           (residue_tweak 10 (quadratic_residue 10 3) (quadratic_residue 10 7) (3 * 7)) 7"
proof -
  have h1: "is_prime 3" by code_simp
  have h3: "is_prime 7" by code_simp
  have h2: "(3 :: int) mod 8 = 3" and h4: "(7 :: int) mod 8 = 7" by simp_all
  have h5: "quadratic_residue 10 3" by code_simp
  have h6: "\<not> quadratic_residue 10 7" by code_simp
  have v: "residue_tweak 10 (quadratic_residue 10 3) (quadratic_residue 10 7) (3 * 7) = 1"
    by code_simp
  from residue_tweak_quadratic_residue[OF h1 h2 h3 h4, of 10] h1 h2 h3 h4 h5 h6 v
  show ?thesis by blast
qed

section \<open>Runs of the whole program\<close>

text \<open>Every pass of the verification loop computes the same thing.\<close>

lemma verify_loop_eq:
  "verify_loop k zsig e n = (if k = 0 then Inr () else verify_once zsig e n)"
proof (induction k)
  case 0
  show ?case by simp
next
  case (Suc k)
  show ?case
  proof (cases "verify_once zsig e n")
    case (Inl err)
    then show ?thesis by simp
  next
    case (Inr u)
    then show ?thesis using Suc by (cases k) simp_all
  qed
qed

text \<open>
  What the returned convergent has to do with the signature: up to sign, \<open>zsig\<close> times
  the original \<open>s\<close> is congruent modulo the original \<open>n\<close> to the larger of the two values
  left in \<open>s\<close> and \<open>n\<close>.
\<close>

lemma compress_loop_congruence:
  assumes "compress_loop root i0 s n vs = Inr (i, s', n', vs')"
    "i0 \<le> 3" "length vs = 4" "0 \<le> s" "0 \<le> n"
    "N dvd (if even i0 then s else n)
       + (if odd i0 then 1 else - 1) * vs ! unat ((i0 - 1) AND 3) * S"
    "N dvd (if even i0 then n else s) - (if odd i0 then 1 else - 1) * vs ! unat i0 * S"
  shows "0 < max s' n'
       \<and> N dvd max s' n' * max s' n' - vs' ! unat ((i - 1) AND 3) * vs' ! unat ((i - 1) AND 3) * (S * S)"
  using assms
proof (induction root i0 s n vs rule: compress_loop.induct)
  case (1 root i0 s n vs)
  define a where "a = (if even i0 then s else n)"
  define b where "b = (if even i0 then n else s)"
  define c1 where "c1 = vs ! unat i0"
  define c0 where "c0 = vs ! unat ((i0 - 1) AND 3)"
  define sg :: int where "sg = (if odd i0 then 1 else - 1)"
  have sg2: "sg * sg = 1" by (simp add: sg_def)
  have ab: "0 \<le> a" "0 \<le> b" using "1.prems"(4,5) by (auto simp: a_def b_def)
  have ca: "N dvd a + sg * c0 * S" and cb: "N dvd b - sg * c1 * S"
    using "1.prems"(6,7) by (simp_all add: a_def b_def c1_def c0_def sg_def)
  from "1.prems"(1) obtain i1 s1 n1 vs1 where
    step: "compress_step i0 s n vs = Inr (i1, s1, n1, vs1)"
    by (subst (asm) compress_loop.simps) (auto split: sum.splits)
  note ring = compress_step_ring[OF step "1.prems"(2,3)]
  have i1: "i1 = (i0 + 1) AND 3"
    using step by (auto simp: compress_step_def mpz_fdiv_qr_def Let_def split: if_splits)
  have par: "even i1 \<longleftrightarrow> odd i0" unfolding i1 by (rule ring_parity)
  have b0: "b \<noteq> 0"
    using compress_step_even[OF step] compress_step_odd[OF step] by (auto simp: b_def)
  then have bpos: "0 < b" using ab(2) by simp
  have new: "s1 = (if even i0 then a mod b else b)" "n1 = (if even i0 then b else a mod b)"
    using compress_step_even[OF step] compress_step_odd[OF step]
    by (auto simp: a_def b_def)
  have c1': "vs1 ! unat i1 = c1 * (a div b) + c0"
    using ring(5) by (simp add: a_def b_def c1_def c0_def)
  have c0': "vs1 ! unat ((i1 - 1) AND 3) = c1"
    using ring(3,4) by (simp add: c1_def)
  have r0: "0 \<le> a mod b" and rb: "a mod b < b" using bpos by simp_all
  have nonneg: "0 \<le> s1" "0 \<le> n1" using ab r0 by (auto simp: new)
  show ?case
  proof (cases "vs1 ! unat i1 < root")
    case True
    then have loop: "compress_loop root i1 s1 n1 vs1 = Inr (i, s', n', vs')"
      using "1.prems"(1) step by (subst (asm) compress_loop.simps) simp
    define d r where "d = a div b" and "r = a mod b"
    have a_eq: "a = d * b + r" by (simp add: d_def r_def)
    have "r + sg * (c1 * d + c0) * S = (a + sg * c0 * S) - d * (b - sg * c1 * S)"
      unfolding a_eq by (simp add: algebra_simps)
    moreover have "N dvd (a + sg * c0 * S) - d * (b - sg * c1 * S)"
      by (rule dvd_diff[OF ca dvd_mult[OF cb]])
    ultimately have cr: "N dvd a mod b + sg * (c1 * (a div b) + c0) * S"
      by (simp only: d_def r_def)
    show ?thesis
    proof (rule "1.IH"[OF step refl refl refl True loop ring(1,2) nonneg])
      show "N dvd (if even i1 then s1 else n1)
          + (if odd i1 then 1 else - 1) * vs1 ! unat ((i1 - 1) AND 3) * S"
        using cb by (cases "odd i0") (simp_all add: par new c0' sg_def)
      show "N dvd (if even i1 then n1 else s1) - (if odd i1 then 1 else - 1) * vs1 ! unat i1 * S"
        using cr by (cases "odd i0") (simp_all add: par new c1' sg_def algebra_simps)
    qed
  next
    case False
    then have fin: "i = i1" "s' = s1" "n' = n1" "vs' = vs1"
      using "1.prems"(1) step by (subst (asm) compress_loop.simps, simp)+
    have mx: "max s1 n1 = b" using rb by (auto simp: new)
    have "b * b - c1 * c1 * (S * S) = (b - sg * c1 * S) * (b + sg * c1 * S) + (sg * sg - 1) * (c1 * c1 * (S * S))"
      by (simp add: algebra_simps)
    also have "\<dots> = (b - sg * c1 * S) * (b + sg * c1 * S)" by (simp add: sg2)
    finally have "N dvd b * b - c1 * c1 * (S * S)" using cb by simp
    then show ?thesis using bpos by (simp add: mx fin c0')
  qed
qed

lemma isqrt_square: "isqrt (t * t) = t"
proof -
  define r where "r = isqrt (t * t)"
  have le: "r * r \<le> t * t" and gt: "t * t < (r + 1) * (r + 1)"
    using isqrt_correct[of "t * t"] by (simp_all add: r_def)
  have "r \<le> t"
  proof (rule ccontr)
    assume "\<not> r \<le> t"
    then have "t + 1 \<le> r" by simp
    then have "(t + 1) * (t + 1) \<le> r * r" by (intro mult_le_mono)
    then show False using le by simp
  qed
  moreover have "t \<le> r"
  proof (rule ccontr)
    assume "\<not> t \<le> r"
    then have "r + 1 \<le> t" by simp
    then have "(r + 1) * (r + 1) \<le> t * t" by (intro mult_le_mono)
    then show False using gt by simp
  qed
  ultimately show ?thesis by (simp add: r_def)
qed

text \<open>
  The check of the verification loop passes whenever the larger of the two values left by
  the compressor has a square below \<open>n\<close>.
\<close>

lemma verify_once_passes:
  assumes "signature_compress s n = Inr (zsig, s', n')" "0 < s" "0 < n"
    "s * s mod n = e" "max s' n' * max s' n' < n"
  shows "verify_once zsig e n = Inr ()"
proof -
  define t where "t = max s' n'"
  obtain i vs where
    loop: "compress_loop (int (isqrt (nat n))) 1 s n [0, 1, 0, 0] = Inr (i, s', n', vs)"
    and z: "zsig = vs ! unat ((i - 1) AND 3)"
    using signature_compress_loop[OF assms(1)] by blast
  have "0 < max s' n' \<and> n dvd max s' n' * max s' n' - zsig * zsig * (s * s)"
    unfolding z using assms(2,3) by (intro compress_loop_congruence[OF loop]) simp_all
  then have t0: "0 < t" and d: "n dvd t * t - zsig * zsig * (s * s)" by (simp_all add: t_def)
  have "zsig * zsig * e mod n = zsig * zsig * (s * s) mod n"
    unfolding assms(4)[symmetric] by (simp only: mod_mult_right_eq)
  also have "\<dots> = t * t mod n" using d by (simp add: mod_eq_dvd_iff dvd_diff_commute)
  also have "\<dots> = t * t" using assms(5) t0 by (simp add: t_def)
  finally have q: "zsig * zsig * e mod n = t * t" .
  have "isqrt (nat (t * t)) = nat t"
    using t0 isqrt_square[of "nat t"] by (simp add: nat_mult_distrib)
  then have "mpz_sqrtrem (t * t) = Inr (t, 0)" using t0 by (simp add: mpz_sqrtrem_def)
  then show ?thesis using assms(3) t0 q by (simp add: verify_once_def mpz_mod_def)
qed

text \<open>The stages of the run that breaks C2.\<close>

lemma run_p: "init_random_prime trial_division 512 3 (Bytes (replicate 64 0) # src) = Some (Inr (3, src))"
  by code_simp

lemma run_q31: "init_random_prime trial_division 512 7 (Bytes (replicate 63 0 @ [24]) # src) = Some (Inr (31, src))"
  by code_simp

lemma run_e7: "random_element 1024 93 (Bytes (replicate 127 0 @ [7]) # src) = Inr (7, src)"
  by code_simp

text \<open>
  C2.  For every \<open>(zsig, e, n)\<close> the pipeline produces, \<open>zsig zsig e mod n\<close> should be a
  non-zero perfect square, in each of the 1,000,000 passes; the program does not achieve
  that.  On 64 zero bytes for \<open>p\<close>, 63 zero bytes and \<^verbatim>\<open>0x18\<close> for \<open>q\<close>, 127 zero bytes and
  \<^verbatim>\<open>0x07\<close> for \<open>e\<close>, and a zero root byte, the program gets \<open>p = 3\<close>, \<open>q = 31\<close>,
  \<open>n = 93\<close>, \<open>e = 7\<close> and the signature 10.  The compressor stops in its first pass, because
  the convergent 9 is not below \<open>isqrt 93 = 9\<close>, and returns \<open>zsig = 1\<close>; the verification
  quantity is 7, whose square root leaves the remainder 3, and \<^verbatim>\<open>main\<close> aborts in the first
  pass of the loop.  By \<open>verify_once_passes\<close> the check would pass if the larger value left
  by the compressor, here 10, had its square below \<open>n\<close>; the stop at \<open>isqrt n\<close> itself lets it
  be as large as \<open>n div isqrt n\<close>.
\<close>

theorem verification_aborts_on_pipeline_output:
  "main trial_division garbage
     [Bytes (replicate 64 0), Bytes (replicate 63 0 @ [24]), Bytes (replicate 127 0 @ [7]), Bytes [0]]
     = Some (Inl Abort)
   \<and> root_extractor 7 3 31 93 (- 30) 31 0 = 10
   \<and> signature_compress 10 93 = Inr (1, 10, 3)
   \<and> mpz_sqrtrem (1 * 1 * 7 mod 93) = Inr (2, 3)"
proof -
  have g: "group_builder 3 31 = (93, - 30, 31)" by code_simp
  have a: "is_quadratic_residue 7 3 (mpz_cdiv_q_2exp 4 2)"
    and b: "is_quadratic_residue 7 31 (mpz_cdiv_q_2exp 32 2)" by code_simp+
  have t: "residue_tweak 7 True True 93 = 7" by code_simp
  have r: "read_root garbage [Bytes [0]] = (0, [])" by (simp add: read_root_def)
  have s: "root_extractor 7 3 31 93 (- 30) 31 0 = 10" by code_simp
  have z: "signature_compress 10 93 = Inr (1, 10, 3)" by code_simp
  have v: "verify_once 1 7 93 = Inl Abort" by code_simp
  have l: "verify_loop 1000000 1 7 93 = Inl Abort" by (simp only: verify_loop_eq v) simp
  have w: "mpz_sqrtrem (1 * 1 * 7 mod 93) = Inr (2, 3)" by code_simp
  have "sign_and_verify 3 31 garbage [Bytes (replicate 127 0 @ [7]), Bytes [0]] = Inl Abort"
    unfolding sign_and_verify_def g by (simp add: Let_def run_e7 a b t r s z l)
  then have "main trial_division garbage
     [Bytes (replicate 64 0), Bytes (replicate 63 0 @ [24]), Bytes (replicate 127 0 @ [7]), Bytes [0]]
     = Some (Inl Abort)"
    unfolding main_def by (simp add: run_p run_q31)
  then show ?thesis using s z w by simp
qed


text \<open>The retry loop is one call of \<^verbatim>\<open>read\<close> after another, until one is not interrupted.\<close>

lemma read_retry_sys_read:
  "read_retry count src =
     (case sys_read count src of
        (Bytes bs, rest) \<Rightarrow> (Bytes bs, rest)
      | (Failed e, rest) \<Rightarrow> if e = EINTR then read_retry count rest else (Failed e, rest))"
  by (cases "(count, src)" rule: sys_read.cases) simp_all

text \<open>The stages of the run that breaks C9.\<close>

lemma run_q7: "init_random_prime trial_division 512 7 (Bytes (replicate 64 0) # src) = Some (Inr (7, src))"
  by code_simp

lemma run_e1: "random_element 1024 21 (Bytes (replicate 127 0 @ [1]) # src) = Inr (1, src)"
  by code_simp

text \<open>
  C9.  Every read from the randomness source should be retried when interrupted and
  abort when short.  The two reads through the retry loop do that; the read of the root byte does not: interrupted, failed or at end of file it
  leaves \<open>root\<close> as it was and the program goes on, here to exit status 0 with the root
  selector taken from the uninitialised variable.
\<close>

theorem root_selection_read_unchecked:
  "read_root garbage (Failed EINTR # src) = (garbage, src)
   \<and> read_root garbage (Failed EIO # src) = (garbage, src)
   \<and> read_root garbage [] = (garbage, [])
   \<and> read_exact 1 (Failed EINTR # Bytes [b] # src) = Inr ([b], src)
   \<and> read_exact 1 (Failed EIO # src) = Inl Abort
   \<and> read_exact 1 [] = Inl Abort
   \<and> main trial_division 2
         [Bytes (replicate 64 0), Bytes (replicate 64 0), Bytes (replicate 127 0 @ [1]),
          Failed EINTR, Bytes [1]]
       = Some (Inr 0)"
proof -
  have g: "group_builder 3 7 = (21, - 6, 7)" by code_simp
  have a: "is_quadratic_residue 1 3 (mpz_cdiv_q_2exp 4 2)"
    and b: "is_quadratic_residue 1 7 (mpz_cdiv_q_2exp 8 2)" by code_simp+
  have t: "residue_tweak 1 True True 21 = 1" by code_simp
  have r: "read_root 2 [Failed EINTR, Bytes [1]] = (2, [Bytes [1]])" by (simp add: read_root_def)
  have s: "root_extractor 1 3 7 21 (- 6) 7 2 = 13" by code_simp
  have z: "signature_compress 13 21 = Inr (3, 2, 3)" by code_simp
  have v: "verify_once 3 1 21 = Inr ()" by code_simp
  have l: "verify_loop 1000000 3 1 21 = Inr ()" by (simp only: verify_loop_eq v) simp
  have "sign_and_verify 3 7 2 [Bytes (replicate 127 0 @ [1]), Failed EINTR, Bytes [1]] = Inr 0"
    unfolding sign_and_verify_def g by (simp add: Let_def run_e1 a b t r s z l)
  then have "main trial_division 2
         [Bytes (replicate 64 0), Bytes (replicate 64 0), Bytes (replicate 127 0 @ [1]),
          Failed EINTR, Bytes [1]]
       = Some (Inr 0)"
    unfolding main_def by (simp add: run_p run_q7)
  then show ?thesis by (simp add: read_root_def read_exact_def)
qed

end
